theory Spec2Isabelle
  imports Main "HOL-Library.AList" "HOL-Library.DAList" "HOL-Library.Sublist"
    "HOL-Library.List_Lexorder" "HOL-Library.Char_ord"
begin

section \<open>Errors, log entries and the trace of external calls\<close>

text \<open>
  A Go \<^verbatim>\<open>error\<close> value, by its dynamic type. A \<open>failure\<close> is an error known by its
  message (\<^verbatim>\<open>fmt.Errorf\<close>, or whatever a backend, a renderer or the executor returns)
  or such an error wrapped by \<^verbatim>\<open>errors.Wrap(err, msg)\<close>; \<^verbatim>\<open>err.Error()\<close> of a wrapped
  error is \<^verbatim>\<open>msg: cause\<close>.

  Modelled from the spec: the declaration of \<^verbatim>\<open>berr.BackendError\<close> is not among the
  sources; the spec has \<^verbatim>\<open>BackendError{Backend, Message}\<close>, and \<^verbatim>\<open>process\<close> fills the
  two fields.
\<close>

datatype failure =
    ErrorNew string
  | Wrap failure string

fun Error :: "failure \<Rightarrow> string" where
  "Error (ErrorNew m) = m"
| "Error (Wrap e m) = m @ '': '' @ Error e"

datatype error =
    Failure failure
  | BackendError (Message: string) (BackendName: string)

definition ErrEmptySrc :: failure where
  "ErrEmptySrc = ErrorNew ''empty src template''"

type_synonym fields = "(string \<times> string) list"

datatype level = DebugLevel | WarningLevel | ErrorLevel

datatype payload = Text string | ErrorValue error

text \<open>
  Everything the resource does to the outside world, in the order it happens: log
  entries (level, structured fields, payload) and the calls into the collaborators
  (backend client, renderer, executor, timer).
\<close>

datatype action =
    Log level fields payload
  | ConnectAllCall nat
  | GetValuesCall nat "string list"
  | CloseCall nat
  | CreateStageFileCall nat
  | SyncFilesCall nat
  | SpawnChildCall
  | StopChildCall
  | ReloadCall
  | SignalChildCall nat
  | SleepSeconds int

section \<open>The key-value store\<close>

text \<open>
  Modelled from the spec: \<^verbatim>\<open>memkv.Store\<close> comes from a library outside the sources.
  By the spec it is a mapping from key to string value with \<^verbatim>\<open>Set\<close>, \<^verbatim>\<open>Exists\<close>,
  \<^verbatim>\<open>Purge\<close> and \<^verbatim>\<open>GetAllKVs\<close>, the last an ordered sequence by key. A mapping holds
  a key at most once, which the type of association lists with distinct keys expresses;
  keys are ordered as byte strings.
\<close>

type_synonym Store = "(string, string) alist"

definition memkv_New :: Store where
  "memkv_New = DAList.empty"

definition Store_Purge :: "Store \<Rightarrow> Store" where
  "Store_Purge st = DAList.empty"

definition Store_Set :: "string \<Rightarrow> string \<Rightarrow> Store \<Rightarrow> Store" where
  "Store_Set k v st = DAList.update k v st"

definition Store_Exists :: "string \<Rightarrow> Store \<Rightarrow> bool" where
  "Store_Exists k st = (DAList.lookup st k \<noteq> None)"

definition Store_GetAllKVs :: "Store \<Rightarrow> (string \<times> string) list" where
  "Store_GetAllKVs st = sort_key fst (DAList.impl_of st)"

section \<open>Path helpers\<close>

text \<open>\<^verbatim>\<open>strings.TrimPrefix(s, prefix)\<close>.\<close>

fun TrimPrefix :: "string \<Rightarrow> string \<Rightarrow> string" where
  "TrimPrefix s pre =
     (if take (length pre) s = pre then drop (length pre) s else s)"

text \<open>The elements of a path between its slashes.\<close>

fun split_path :: "string \<Rightarrow> string list" where
  "split_path [] = [[]]"
| "split_path (c # cs) =
     (if c = CHR ''/'' then [] # split_path cs
      else (case split_path cs of [] \<Rightarrow> [[c]] | x # xs \<Rightarrow> (c # x) # xs))"

text \<open>
  \<^verbatim>\<open>path.Clean\<close> on a rooted path: empty elements and \<^verbatim>\<open>.\<close> are dropped, \<^verbatim>\<open>..\<close>
  removes the element before it and is dropped at the root.
\<close>

fun clean_elems :: "string list \<Rightarrow> string list \<Rightarrow> string list" where
  "clean_elems out [] = out"
| "clean_elems out (e # es) =
     (if e = [] \<or> e = ''.'' then clean_elems out es
      else if e = ''..'' then clean_elems (butlast out) es
      else clean_elems (out @ [e]) es)"

fun join_slash :: "string list \<Rightarrow> string" where
  "join_slash [] = []"
| "join_slash [x] = x"
| "join_slash (x # y # ys) = x @ ''/'' @ join_slash (y # ys)"

text \<open>\<^verbatim>\<open>path.Join("/", x)\<close>, that is \<^verbatim>\<open>path.Clean("/" + "/" + x)\<close>.\<close>

definition path_Join_root :: "string \<Rightarrow> string" where
  "path_Join_root x = ''/'' @ join_slash (clean_elems [] (split_path x))"

text \<open>
  Modelled from the spec: \<^verbatim>\<open>appendPrefix\<close> is not among the sources; the spec has
  \<^verbatim>\<open>GetValues(b.Prefix ++ b.Keys)\<close>, each key with the prefix applied.
\<close>

definition appendPrefix :: "string \<Rightarrow> string list \<Rightarrow> string list" where
  "appendPrefix pre keys = map (\<lambda>k. pre @ k) keys"

section \<open>Data model\<close>

type_synonym addr = nat

text \<open>
  Modelled from the spec: the declarations of \<^verbatim>\<open>Backend\<close>, \<^verbatim>\<open>Renderer\<close>,
  \<^verbatim>\<open>ExecConfig\<close> and the executor are not among the sources. The records have the
  fields the sources read and write, with the meaning the spec gives them.

  \<^verbatim>\<open>Backend\<close> is a struct passed by value; its \<^verbatim>\<open>store\<close> field is a pointer
  (\<^verbatim>\<open>None\<close> is nil), so copies of a backend share one store. \<^verbatim>\<open>ReadWatcher\<close> is the
  handle of the connection. Renderers are held by pointer: a list of renderers is the
  list of their addresses. Of \<^verbatim>\<open>Resource\<close>, declared in the sources, the function map
  is left out (it is fixed at construction) and the signal channel is part of the
  configuration of \<^verbatim>\<open>Monitor\<close> below.
\<close>

record Backend =
  ReadWatcher :: nat
  Name :: string
  Prefix :: string
  Keys :: "string list"
  Interval :: int
  Onetime :: bool
  Watch :: bool
  store :: "addr option"

record Renderer =
  Src :: string
  ReapLock :: "nat option"
  logger :: "fields option"

record ExecConfig =
  Command :: string
  ReloadSignal :: string
  KillSignal :: string
  KillTimeout :: int
  Splay :: int

record Executor =
  config :: ExecConfig
  logger :: fields

record Resource =
  backends :: "Backend list"
  store :: "addr option"
  sources :: "addr list"
  logger :: fields
  exec :: Executor
  Failed :: bool

record ResourceConfig =
  Exec :: ExecConfig
  Template :: "addr list"
  Name :: string
  Connectors :: nat

text \<open>
  The memory the resource works on: the \<^verbatim>\<open>memkv.Store\<close> objects and the
  \<^verbatim>\<open>Renderer\<close> objects by address, the next address \<^verbatim>\<open>memkv.New\<close> hands out, and
  the trace so far.
\<close>

record state =
  stores :: "addr \<Rightarrow> Store"
  renderers :: "addr \<Rightarrow> Renderer"
  next_addr :: addr
  trace :: "action list"

text \<open>
  The collaborators whose code is outside the resource. Each answers a call from the
  trace up to that call, so that two calls at different moments may answer differently.
  \<^verbatim>\<open>GetValues\<close> yields the map it returns as the list of its pairs in the order the
  \<^verbatim>\<open>range\<close> loop visits them.
\<close>

record env =
  ConnectAll :: "action list \<Rightarrow> nat \<Rightarrow> failure + Backend list"
  GetValues :: "action list \<Rightarrow> nat \<Rightarrow> string list \<Rightarrow> failure + (string \<times> string) list"
  createStageFile :: "action list \<Rightarrow> Renderer \<Rightarrow> Store option \<Rightarrow> failure option"
  syncFiles :: "action list \<Rightarrow> Renderer \<Rightarrow> bool \<times> failure option"
  SpawnChild :: "action list \<Rightarrow> Executor \<Rightarrow> failure option"
  Reload :: "action list \<Rightarrow> Executor \<Rightarrow> failure option"
  Int63n :: "action list \<Rightarrow> int \<Rightarrow> int"

definition emit :: "action \<Rightarrow> state \<Rightarrow> state" where
  "emit a s = s\<lparr>trace := trace s @ [a]\<rparr>"

definition store_upd :: "addr \<Rightarrow> (Store \<Rightarrow> Store) \<Rightarrow> state \<Rightarrow> state" where
  "store_upd a f s = s\<lparr>stores := (stores s)(a := f (stores s a))\<rparr>"

section \<open>setVars\<close>

text \<open>The two log entries of \<^verbatim>\<open>setVars\<close> and the keys it asks the backend for.\<close>

definition retrievingEntry :: "Resource \<Rightarrow> Backend \<Rightarrow> action" where
  "retrievingEntry t storeClient =
     Log DebugLevel
       (Resource.logger t @
          [(''backend'', Backend.Name storeClient), (''key_prefix'', Prefix storeClient)])
       (Text ''retrieving keys'')"

definition warn :: "fields \<Rightarrow> string \<Rightarrow> action" where
  "warn lg k = Log WarningLevel lg (Text (''key collision - '' @ k))"

definition fetchKeys :: "Backend \<Rightarrow> string list" where
  "fetchKeys storeClient = appendPrefix (Prefix storeClient) (Keys storeClient)"

text \<open>
  The loop \<^verbatim>\<open>for key, value := range result\<close>: each pair is set in the backend's
  own store under the key with the prefix trimmed and the path made absolute.
\<close>

fun setResult :: "addr \<Rightarrow> string \<Rightarrow> (string \<times> string) list \<Rightarrow> state \<Rightarrow> state" where
  "setResult a pre [] s = s"
| "setResult a pre ((key, val) # kvs) s =
     setResult a pre kvs
       (store_upd a (Store_Set (path_Join_root (TrimPrefix key pre)) val) s)"

text \<open>
  The inner loop of the merge, over the pairs of one backend's store: a warning if the
  merged store (at \<open>m\<close>) has the key already, then the pair is set.
\<close>

fun mergeKVs :: "fields \<Rightarrow> addr \<Rightarrow> (string \<times> string) list \<Rightarrow> state \<Rightarrow> state" where
  "mergeKVs lg m [] s = s"
| "mergeKVs lg m ((k, v) # kvs) s =
     (let s1 = (if Store_Exists k (stores s m) then emit (warn lg k) s else s)
      in mergeKVs lg m kvs (store_upd m (Store_Set k v) s1))"

text \<open>
  The outer loop of the merge, over \<^verbatim>\<open>t.backends\<close>. \<^verbatim>\<open>None\<close> is the panic of a nil
  store pointer.
\<close>

fun mergeBackends :: "fields \<Rightarrow> addr \<Rightarrow> Backend list \<Rightarrow> state \<Rightarrow> state option" where
  "mergeBackends lg m [] s = Some s"
| "mergeBackends lg m (v # vs) s =
     (case Backend.store v of
        None \<Rightarrow> None
      | Some a \<Rightarrow> mergeBackends lg m vs (mergeKVs lg m (Store_GetAllKVs (stores s a)) s))"

definition setVars ::
  "env \<Rightarrow> Resource \<Rightarrow> Backend \<Rightarrow> state \<Rightarrow> (failure option \<times> state) option" where
  "setVars env t storeClient s =
     (let s1 = emit (retrievingEntry t storeClient) s;
          res = GetValues env (trace s1) (ReadWatcher storeClient) (fetchKeys storeClient);
          s2 = emit (GetValuesCall (ReadWatcher storeClient) (fetchKeys storeClient)) s1
      in case res of
           Inl err \<Rightarrow> Some (Some (Wrap err ''getValues failed''), s2)
         | Inr result \<Rightarrow>
             (case Backend.store storeClient of
                None \<Rightarrow> None
              | Some a \<Rightarrow>
                  (let s3 = store_upd a Store_Purge s2;
                       s4 = setResult a (Prefix storeClient) result s3
                   in case Resource.store t of
                        None \<Rightarrow> None
                      | Some m \<Rightarrow>
                          (case mergeBackends (Resource.logger t) m (backends t)
                                  (store_upd m Store_Purge s4) of
                             None \<Rightarrow> None
                           | Some s5 \<Rightarrow> Some (None, s5)))))"

section \<open>createStageFileAndSync and process\<close>

text \<open>
  The loop over \<^verbatim>\<open>t.sources\<close>, with the \<^verbatim>\<open>changed\<close> flag so far. The renderer
  reads the merged store through the function map.
\<close>

fun stageAndSync ::
  "env \<Rightarrow> Resource \<Rightarrow> addr list \<Rightarrow> bool \<Rightarrow> state \<Rightarrow> bool \<times> failure option \<times> state" where
  "stageAndSync env t [] changed s = (changed, None, s)"
| "stageAndSync env t (p # ps) changed s =
     (let err = createStageFile env (trace s) (renderers s p)
                  (map_option (stores s) (Resource.store t));
          s1 = emit (CreateStageFileCall p) s
      in case err of
           Some e \<Rightarrow> (changed, Some (Wrap e ''create stage file failed''), s1)
         | None \<Rightarrow>
             (let (c, err2) = syncFiles env (trace s1) (renderers s1 p);
                  s2 = emit (SyncFilesCall p) s1;
                  changed2 = (changed \<or> c)
              in case err2 of
                   Some e \<Rightarrow> (changed2, Some (Wrap e ''sync files failed''), s2)
                 | None \<Rightarrow> stageAndSync env t ps changed2 s2))"

definition createStageFileAndSync ::
  "env \<Rightarrow> Resource \<Rightarrow> state \<Rightarrow> bool \<times> failure option \<times> state" where
  "createStageFileAndSync env t s = stageAndSync env t (sources t) False s"

text \<open>
  The first loop of \<^verbatim>\<open>process\<close>: \<^verbatim>\<open>setVars\<close> for each given backend, stopping at
  the first failure with a \<^verbatim>\<open>BackendError\<close>.
\<close>

fun setVarsAll ::
  "env \<Rightarrow> Resource \<Rightarrow> Backend list \<Rightarrow> state \<Rightarrow> (error option \<times> state) option" where
  "setVarsAll env t [] s = Some (None, s)"
| "setVarsAll env t (storeClient # rest) s =
     (case setVars env t storeClient s of
        None \<Rightarrow> None
      | Some (Some err, s1) \<Rightarrow>
          Some (Some (BackendError (Error (Wrap err ''setVars failed''))
                        (Backend.Name storeClient)), s1)
      | Some (None, s1) \<Rightarrow> setVarsAll env t rest s1)"

definition process ::
  "env \<Rightarrow> Resource \<Rightarrow> Backend list \<Rightarrow> state \<Rightarrow> (bool \<times> error option \<times> state) option" where
  "process env t storeClients s =
     (case setVarsAll env t storeClients s of
        None \<Rightarrow> None
      | Some (Some err, s1) \<Rightarrow> Some (False, Some err, s1)
      | Some (None, s1) \<Rightarrow>
          (case createStageFileAndSync env t s1 of
             (changed, Some err, s2) \<Rightarrow>
               Some (changed, Some (Failure (Wrap err ''createStageFileAndSync failed'')), s2)
           | (changed, None, s2) \<Rightarrow> Some (changed, None, s2)))"

section \<open>Construction\<close>

text \<open>\<^verbatim>\<open>memkv.New()\<close>: a fresh, empty store at the next free address.\<close>

definition alloc_store :: "state \<Rightarrow> addr \<times> state" where
  "alloc_store s =
     (next_addr s,
      s\<lparr>stores := (stores s)(next_addr s := memkv_New), next_addr := Suc (next_addr s)\<rparr>)"

text \<open>
  The loop of \<^verbatim>\<open>NewResource\<close> over the renderers: the first empty \<^verbatim>\<open>Src\<close> ends the
  construction with \<^verbatim>\<open>ErrEmptySrc\<close>; the renderers before it have their logger set
  already, since the list holds pointers.
\<close>

fun setLoggers :: "fields \<Rightarrow> addr list \<Rightarrow> state \<Rightarrow> failure option \<times> state" where
  "setLoggers lg [] s = (None, s)"
| "setLoggers lg (p # ps) s =
     (if Src (renderers s p) = [] then (Some ErrEmptySrc, s)
      else setLoggers lg ps
             (s\<lparr>renderers := (renderers s)(p := (renderers s p)\<lparr>Renderer.logger := Some lg\<rparr>)\<rparr>))"

text \<open>The condition under which \<^verbatim>\<open>NewResource\<close> sets the interval of a backend.\<close>

definition needsUpgrade :: "Backend \<Rightarrow> bool" where
  "needsUpgrade b = (Interval b \<le> 0 \<and> \<not> Watch b \<and> \<not> Onetime b)"

definition intervalWarning :: "fields \<Rightarrow> action" where
  "intervalWarning lg =
     Log WarningLevel lg (Text ''interval needs to be > 0: setting interval to 60'')"

text \<open>
  The loop of \<^verbatim>\<open>NewResource\<close> over the backends: each gets its own new store, and
  one that neither watches nor runs once and has no positive interval is set to poll
  every 60 seconds, with a warning.
\<close>

fun initBackends :: "fields \<Rightarrow> Backend list \<Rightarrow> state \<Rightarrow> Backend list \<times> state" where
  "initBackends lg [] s = ([], s)"
| "initBackends lg (b # bs) s =
     (let (a, s1) = alloc_store s;
          b1 = b\<lparr>Backend.store := Some a\<rparr>;
          (b2, s2) = (if Interval b1 \<le> 0 \<and> \<not> Onetime b1 \<and> \<not> Watch b1
                      then (b1\<lparr>Interval := 60\<rparr>, emit (intervalWarning lg) s1)
                      else (b1, s1));
          (bs2, s3) = initBackends lg bs s2
      in (b2 # bs2, s3))"

definition NewResource ::
  "Backend list \<Rightarrow> addr list \<Rightarrow> string \<Rightarrow> Executor \<Rightarrow> state \<Rightarrow> (failure + Resource) \<times> state" where
  "NewResource bs srcs name ex s =
     (if bs = [] then (Inl (ErrorNew ''a valid StoreClient is required''), s)
      else
        (let lg = [(''resource'', name)]
         in case setLoggers lg srcs s of
              (Some e, s1) \<Rightarrow> (Inl e, s1)
            | (None, s1) \<Rightarrow>
                (let (m, s2) = alloc_store s1;
                     (bs2, s3) = initBackends lg bs s2
                 in (Inr \<lparr>backends = bs2, Resource.store = Some m, sources = srcs,
                          Resource.logger = lg, exec = ex, Failed = False\<rparr>, s3))))"

text \<open>The loop \<^verbatim>\<open>p.ReapLock = reapLock\<close> over the templates of the configuration.\<close>

fun setReapLocks :: "nat option \<Rightarrow> addr list \<Rightarrow> state \<Rightarrow> state" where
  "setReapLocks reapLock [] s = s"
| "setReapLocks reapLock (p # ps) s =
     setReapLocks reapLock ps
       (s\<lparr>renderers := (renderers s)(p := (renderers s p)\<lparr>ReapLock := reapLock\<rparr>)\<rparr>)"

text \<open>The loop \<^verbatim>\<open>v.Close()\<close> over the connected backends.\<close>

fun closeAll :: "Backend list \<Rightarrow> state \<Rightarrow> state" where
  "closeAll [] s = s"
| "closeAll (v # vs) s = closeAll vs (emit (CloseCall (ReadWatcher v)) s)"

text \<open>
  Modelled from the spec: \<^verbatim>\<open>NewExecutor\<close> is not among the sources. The executor is
  known by what it is built from, the settings of the child process and the logger;
  what it does is the collaborators' part.
\<close>

definition NewExecutor :: "ExecConfig \<Rightarrow> fields \<Rightarrow> Executor" where
  "NewExecutor c lg = \<lparr>config = c, Executor.logger = lg\<rparr>"

definition NewResourceFromResourceConfig ::
  "env \<Rightarrow> nat option \<Rightarrow> ResourceConfig \<Rightarrow> state \<Rightarrow> (failure + Resource) \<times> state" where
  "NewResourceFromResourceConfig env reapLock r s =
     (let s0 = emit (ConnectAllCall (Connectors r)) s
      in case ConnectAll env (trace s) (Connectors r) of
           Inl err \<Rightarrow> (Inl (Wrap err ''connectAll failed''), s0)
         | Inr backendList \<Rightarrow>
             (let s1 = setReapLocks reapLock (Template r) s0;
                  lg = [(''resource'', ResourceConfig.Name r)];
                  ex = NewExecutor (Exec r) lg;
                  (res, s2) = NewResource backendList (Template r) (ResourceConfig.Name r) ex s1
              in case res of
                   Inl err \<Rightarrow> (Inl err, closeAll backendList s2)
                 | Inr t \<Rightarrow> (Inr t, s2)))"

section \<open>Monitor\<close>

text \<open>\<^verbatim>\<open>fmt.Sprintf("%d", n)\<close>: the decimal digits of an integer.\<close>

fun decimal :: "nat \<Rightarrow> string" where
  "decimal n =
     (if n < 10 then [''0123456789'' ! n]
      else decimal (n div 10) @ [''0123456789'' ! (n mod 10)])"

declare decimal.simps [simp del]

definition sprint_d :: "int \<Rightarrow> string" where
  "sprint_d i = (if i < 0 then CHR ''-'' # decimal (nat (- i)) else decimal (nat i))"

text \<open>
  Where the goroutine of \<^verbatim>\<open>Monitor\<close> stands: at the select of the retry loop, after
  the retry loop and before \<^verbatim>\<open>SpawnChild\<close>, at the select of the main loop, in
  \<^verbatim>\<open>wg.Wait()\<close> of the \<^verbatim>\<open>ctx.Done()\<close> branch, or returned.
\<close>

datatype phase = RetrySelect | SpawnPhase | MainSelect | WaitWg | Returned

text \<open>
  A goroutine the retry loop starts after a failed \<^verbatim>\<open>process\<close>: before it has drawn
  its delay, asleep for the delay drawn, past the \<^verbatim>\<open>default\<close> branch of its select
  and about to send on \<^verbatim>\<open>retryChan\<close>, or gone.
\<close>

datatype sleeper = Started | Sleeping int | Sending | Exited

text \<open>
  The resource under \<^verbatim>\<open>Monitor\<close>: the resource and the memory, whether the derived
  context is cancelled, the number of tokens in \<^verbatim>\<open>retryChan\<close> (capacity 1), the
  goroutines of the retry loop, the place of the main goroutine, whether
  \<^verbatim>\<open>StopChild\<close> is deferred, whether the goroutine around \<^verbatim>\<open>exec.Wait\<close> runs, the
  number of running watch and interval goroutines, and how many of these stand in
  their send on \<^verbatim>\<open>processChan\<close>, which has no buffer. The wait group counts the
  goroutine around \<^verbatim>\<open>exec.Wait\<close> and the watch and interval goroutines.
\<close>

record monitor =
  res :: Resource
  mem :: state
  ctxDone :: bool
  retryChan :: nat
  sleepers :: "sleeper list"
  pc :: phase
  stopDeferred :: bool
  watchdog :: bool
  workers :: nat
  pendingSends :: nat

definition wg :: "monitor \<Rightarrow> nat" where
  "wg c = workers c + (if watchdog c then 1 else 0)"

text \<open>
  What can happen next, one event for each step of a goroutine that the others can
  observe:
  \<^item> \<open>Cancel\<close>: the parent context is cancelled;
  \<^item> \<open>SelectCtxDone\<close>, \<open>SelectRetry\<close>, \<open>SelectDone\<close>: the select at which the main
    goroutine stands takes the case \<^verbatim>\<open><-ctx.Done()\<close>, \<^verbatim>\<open><-retryChan\<close> (and runs
    \<^verbatim>\<open>process\<close>), \<^verbatim>\<open><-done\<close>;
  \<^item> \<open>RecvProcess\<close>, \<open>RecvSignal\<close>, \<open>RecvErr\<close>: the main select receives a backend, a
    signal, a backend error (message and backend) and handles it;
  \<^item> \<open>SleeperStart\<close>, \<open>SleeperWake\<close>, \<open>SleeperSend\<close>: the goroutine of the retry loop
    with that index draws its delay and goes to sleep, wakes and runs its select, sends
    the token;
  \<^item> \<open>StartChild\<close>: the main goroutine goes from \<^verbatim>\<open>SpawnChild\<close> to the main loop;
  \<^item> \<open>WaitReturn\<close>: \<^verbatim>\<open>exec.Wait\<close> returns, with its result; \<open>WgWaitReturn\<close>:
    \<^verbatim>\<open>wg.Wait()\<close> of the main goroutine returns;
  \<^item> \<open>WorkerSend\<close>: a watch or interval goroutine has seen a change or a tick and
    goes to send its backend; \<open>WorkerReturn\<close>: such a goroutine returns; \<open>Drain\<close>:
    the goroutine \<^verbatim>\<open>for range processChan {}\<close> of the \<^verbatim>\<open>ctx.Done()\<close> branch takes a
    backend that a goroutine stands to send.
  The goroutines whose code is not the resource's (the watchers, the interval tickers,
  \<^verbatim>\<open>exec.Wait\<close>, the owner of the parent context, the sender of signals) act through
  \<open>Cancel\<close>, \<open>WaitReturn\<close>, \<open>WorkerSend\<close>, \<open>WorkerReturn\<close> and what the main select
  receives.
\<close>

datatype event =
    Cancel
  | SelectCtxDone
  | SelectRetry
  | SleeperStart nat
  | SleeperWake nat
  | SleeperSend nat
  | StartChild
  | WaitReturn bool
  | WorkerReturn
  | RecvProcess Backend
  | RecvSignal nat
  | RecvErr string string
  | SelectDone
  | WgWaitReturn
  | WorkerSend
  | Drain

text \<open>The start of \<^verbatim>\<open>Monitor\<close>, up to the label \<^verbatim>\<open>retryloop\<close>.\<close>

definition Monitor_start :: "Resource \<Rightarrow> state \<Rightarrow> bool \<Rightarrow> monitor" where
  "Monitor_start t s parentDone =
     \<lparr>res = t\<lparr>Failed := False\<rparr>, mem = s, ctxDone = parentDone, retryChan = 1, sleepers = [],
      pc = RetrySelect, stopDeferred = False, watchdog = False, workers = 0,
      pendingSends = 0\<rparr>"

text \<open>
  Returning from \<^verbatim>\<open>Monitor\<close> runs the deferred calls, last first: \<^verbatim>\<open>StopChild\<close> if the
  child was started, the close of \<^verbatim>\<open>processChan\<close>, \<^verbatim>\<open>cancel\<close>.
\<close>

definition returnFromMonitor :: "monitor \<Rightarrow> monitor" where
  "returnFromMonitor c =
     c\<lparr>mem := (if stopDeferred c then emit StopChildCall (mem c) else mem c),
       ctxDone := True, pc := Returned\<rparr>"

text \<open>The log entry for a failed \<^verbatim>\<open>process\<close> in the retry loop, by the type of the error.\<close>

definition retryErrorEntry :: "Resource \<Rightarrow> error \<Rightarrow> action" where
  "retryErrorEntry t err =
     (case err of
        BackendError msg bk \<Rightarrow>
          Log ErrorLevel (Resource.logger t @ [(''backend'', bk)]) (ErrorValue err)
      | Failure f \<Rightarrow> Log ErrorLevel (Resource.logger t) (ErrorValue err))"

text \<open>The same in the main loop, where the backend field is the name of the backend received.\<close>

definition loopErrorEntry :: "Resource \<Rightarrow> Backend \<Rightarrow> error \<Rightarrow> action" where
  "loopErrorEntry t storeClient err =
     (case err of
        BackendError msg bk \<Rightarrow>
          Log ErrorLevel (Resource.logger t @ [(''backend'', Backend.Name storeClient)])
            (ErrorValue err)
      | Failure f \<Rightarrow> Log ErrorLevel (Resource.logger t) (ErrorValue err))"

definition retryNotice :: "Resource \<Rightarrow> int \<Rightarrow> action" where
  "retryNotice t rn =
     Log ErrorLevel (Resource.logger t)
       (Text (''not all templates could be rendered, trying again after '' @ sprint_d rn
              @ '' seconds''))"

text \<open>The case \<^verbatim>\<open><-retryChan\<close> of the retry loop.\<close>

definition selectRetry :: "env \<Rightarrow> monitor \<Rightarrow> monitor option" where
  "selectRetry env c =
     (case process env (res c) (backends (res c)) (mem c) of
        None \<Rightarrow> None
      | Some (changed, Some err, s1) \<Rightarrow>
          Some (c\<lparr>mem := emit (retryErrorEntry (res c) err) s1,
                  retryChan := retryChan c - 1,
                  sleepers := sleepers c @ [Started]\<rparr>)
      | Some (changed, None, s1) \<Rightarrow>
          Some (c\<lparr>mem := s1, retryChan := retryChan c - 1, pc := SpawnPhase\<rparr>))"

text \<open>
  The goroutine of the retry loop: it draws the delay and logs it and goes to sleep;
  when the sleep is over it looks at the context and either leaves or goes on to send
  the token.
\<close>

definition sleeperStart :: "env \<Rightarrow> nat \<Rightarrow> monitor \<Rightarrow> monitor" where
  "sleeperStart env i c =
     (let rn = Int63n env (trace (mem c)) 30
      in c\<lparr>mem := emit (SleepSeconds rn) (emit (retryNotice (res c) rn) (mem c)),
           sleepers := (sleepers c)[i := Sleeping rn]\<rparr>)"

definition sleeperWake :: "nat \<Rightarrow> monitor \<Rightarrow> monitor" where
  "sleeperWake i c =
     c\<lparr>sleepers := (sleepers c)[i := (if ctxDone c then Exited else Sending)]\<rparr>"

definition sleeperSend :: "nat \<Rightarrow> monitor \<Rightarrow> monitor" where
  "sleeperSend i c = c\<lparr>retryChan := retryChan c + 1, sleepers := (sleepers c)[i := Exited]\<rparr>"

text \<open>
  From \<^verbatim>\<open>SpawnChild\<close> to the main loop: the child is started, or the failure is logged,
  \<^verbatim>\<open>Failed\<close> set and the context cancelled; then the goroutine around \<^verbatim>\<open>exec.Wait\<close>
  and one goroutine for each watch and each positive interval are started.
\<close>

definition countWorkers :: "Backend list \<Rightarrow> nat" where
  "countWorkers bs = length (filter Watch bs) + length (filter (\<lambda>sc. 0 < Interval sc) bs)"

definition startChild :: "env \<Rightarrow> monitor \<Rightarrow> monitor" where
  "startChild env c =
     (let err = SpawnChild env (trace (mem c)) (exec (res c));
          s1 = emit SpawnChildCall (mem c);
          c1 = (case err of
                  Some e \<Rightarrow>
                    c\<lparr>mem := emit (Log ErrorLevel (Resource.logger (res c))
                                     (ErrorValue (Failure e))) s1,
                      res := (res c)\<lparr>Failed := True\<rparr>, ctxDone := True\<rparr>
                | None \<Rightarrow> c\<lparr>mem := s1, stopDeferred := True\<rparr>)
      in c1\<lparr>watchdog := True, workers := countWorkers (backends (res c)), pc := MainSelect\<rparr>)"

text \<open>The goroutine around \<^verbatim>\<open>exec.Wait\<close>, when \<^verbatim>\<open>Wait\<close> returns.\<close>

definition waitReturn :: "bool \<Rightarrow> monitor \<Rightarrow> monitor" where
  "waitReturn failed c =
     (let c1 = (if failed then c\<lparr>res := (res c)\<lparr>Failed := True\<rparr>, ctxDone := True\<rparr> else c)
      in c1\<lparr>watchdog := False\<rparr>)"

text \<open>The case \<^verbatim>\<open>storeClient := <-processChan\<close> of the main loop.\<close>

definition recvProcess :: "env \<Rightarrow> Backend \<Rightarrow> monitor \<Rightarrow> monitor option" where
  "recvProcess env storeClient c =
     (case process env (res c) [storeClient] (mem c) of
        None \<Rightarrow> None
      | Some (changed, Some err, s1) \<Rightarrow>
          Some (c\<lparr>mem := emit (loopErrorEntry (res c) storeClient err) s1\<rparr>)
      | Some (changed, None, s1) \<Rightarrow>
          (if changed then
             (let err2 = Reload env (trace s1) (exec (res c));
                  s2 = emit ReloadCall s1
              in case err2 of
                   Some e \<Rightarrow>
                     Some (c\<lparr>mem := emit (Log ErrorLevel (Resource.logger (res c))
                                           (ErrorValue (Failure e))) s2\<rparr>)
                 | None \<Rightarrow> Some (c\<lparr>mem := s2\<rparr>))
           else Some (c\<lparr>mem := s1\<rparr>)))"

text \<open>
  Which events can happen in a configuration. \<^verbatim>\<open>processChan\<close> is local to
  \<^verbatim>\<open>Monitor\<close>, which hands it to the watch and interval goroutines alone, one for
  each backend that watches or has a positive interval. So a backend arrives only
  while such a goroutine runs and stands in its send, and it is a copy of a backend of
  the resource.

  Modelled from the spec: \<^verbatim>\<open>watch\<close> and \<^verbatim>\<open>interval\<close> are not among the sources. By
  the spec \<^verbatim>\<open>Watch\<close> runs until the context is cancelled and sends the backend that
  owns it on every change it observes, and \<^verbatim>\<open>Interval\<close> sends it on every tick, the
  first one not before a full interval. So a goroutine goes to send only while the
  context is live; one that stands in its send already when the context is cancelled
  still hands its backend over, to the main select or to the drain.
\<close>

fun enabled :: "event \<Rightarrow> monitor \<Rightarrow> bool" where
  "enabled Cancel c = True"
| "enabled SelectCtxDone c = (ctxDone c \<and> (pc c = RetrySelect \<or> pc c = MainSelect))"
| "enabled SelectRetry c = (pc c = RetrySelect \<and> 0 < retryChan c)"
| "enabled (SleeperStart i) c = (i < length (sleepers c) \<and> sleepers c ! i = Started)"
| "enabled (SleeperWake i) c = (i < length (sleepers c) \<and> (\<exists>rn. sleepers c ! i = Sleeping rn))"
| "enabled (SleeperSend i) c =
     (i < length (sleepers c) \<and> sleepers c ! i = Sending \<and> retryChan c < 1)"
| "enabled StartChild c = (pc c = SpawnPhase)"
| "enabled (WaitReturn failed) c = watchdog c"
| "enabled WorkerReturn c = (pendingSends c < workers c)"
| "enabled (RecvProcess b) c =
     (pc c = MainSelect \<and> 0 < workers c \<and> 0 < pendingSends c \<and>
      b \<in> set (backends (res c)) \<and> (Watch b \<or> 0 < Interval b))"
| "enabled (RecvSignal sg) c = (pc c = MainSelect)"
| "enabled (RecvErr msg bk) c = (pc c = MainSelect)"
| "enabled SelectDone c = (pc c = MainSelect \<and> wg c = 0)"
| "enabled WgWaitReturn c = (pc c = WaitWg \<and> wg c = 0)"
| "enabled WorkerSend c = (\<not> ctxDone c \<and> pendingSends c < workers c)"
| "enabled Drain c = (pc c = WaitWg \<and> 0 < pendingSends c)"

text \<open>What an enabled event does. \<^verbatim>\<open>None\<close> is a panic inside \<^verbatim>\<open>process\<close>.\<close>

fun fire :: "env \<Rightarrow> event \<Rightarrow> monitor \<Rightarrow> monitor option" where
  "fire env Cancel c = Some (c\<lparr>ctxDone := True\<rparr>)"
| "fire env SelectCtxDone c =
     (if pc c = RetrySelect then Some (returnFromMonitor c) else Some (c\<lparr>pc := WaitWg\<rparr>))"
| "fire env SelectRetry c = selectRetry env c"
| "fire env (SleeperStart i) c = Some (sleeperStart env i c)"
| "fire env (SleeperWake i) c = Some (sleeperWake i c)"
| "fire env (SleeperSend i) c = Some (sleeperSend i c)"
| "fire env StartChild c = Some (startChild env c)"
| "fire env (WaitReturn failed) c = Some (waitReturn failed c)"
| "fire env WorkerReturn c = Some (c\<lparr>workers := workers c - 1\<rparr>)"
| "fire env (RecvProcess b) c = recvProcess env b (c\<lparr>pendingSends := pendingSends c - 1\<rparr>)"
| "fire env (RecvSignal sg) c = Some (c\<lparr>mem := emit (SignalChildCall sg) (mem c)\<rparr>)"
| "fire env (RecvErr msg bk) c =
     Some (c\<lparr>mem := emit (Log ErrorLevel (Resource.logger (res c) @ [(''backend'', bk)])
                          (Text msg)) (mem c)\<rparr>)"
| "fire env SelectDone c = Some (returnFromMonitor c)"
| "fire env WgWaitReturn c = Some (returnFromMonitor c)"
| "fire env WorkerSend c = Some (c\<lparr>pendingSends := pendingSends c + 1\<rparr>)"
| "fire env Drain c = Some (c\<lparr>pendingSends := pendingSends c - 1\<rparr>)"

definition step :: "env \<Rightarrow> event \<Rightarrow> monitor \<Rightarrow> monitor option" where
  "step env e c = (if enabled e c then fire env e c else None)"

fun run :: "env \<Rightarrow> event list \<Rightarrow> monitor \<Rightarrow> monitor option" where
  "run env [] c = Some c"
| "run env (e # es) c = (case step env e c of None \<Rightarrow> None | Some c1 \<Rightarrow> run env es c1)"

text \<open>
  \<^verbatim>\<open>Monitor\<close> under a schedule: the events in the order they happen, from the start.
  The result is the configuration reached, or \<^verbatim>\<open>None\<close> when an event of the schedule
  cannot happen where it stands or \<^verbatim>\<open>process\<close> panics.
\<close>

definition Monitor :: "env \<Rightarrow> Resource \<Rightarrow> state \<Rightarrow> bool \<Rightarrow> event list \<Rightarrow> monitor option" where
  "Monitor env t s parentDone es = run env es (Monitor_start t s parentDone)"

text \<open>
  What holds before the child is started: \<^verbatim>\<open>retryChan\<close> holds at most its one token,
  only running goroutines stand in a send, and while the main goroutine is in the retry
  loop or about to start the child, no \<^verbatim>\<open>StopChild\<close> is deferred and no goroutine of
  the later phases runs.
\<close>

definition beforeChild :: "monitor \<Rightarrow> bool" where
  "beforeChild c \<longleftrightarrow>
     retryChan c \<le> 1 \<and> pendingSends c \<le> workers c \<and>
     (pc c = RetrySelect \<or> pc c = SpawnPhase \<longrightarrow>
        \<not> stopDeferred c \<and> \<not> watchdog c \<and> workers c = 0)"

text \<open>
  What holds once \<^verbatim>\<open>SpawnChild\<close> has failed: \<^verbatim>\<open>Failed\<close> is set, the context is
  cancelled, no \<^verbatim>\<open>StopChild\<close> is deferred, no goroutine stands in a send, and the main
  goroutine is in the main loop, in its shutdown, or has returned.
\<close>

definition afterSpawnFailure :: "monitor \<Rightarrow> bool" where
  "afterSpawnFailure c \<longleftrightarrow>
     Failed (res c) \<and> ctxDone c \<and> \<not> stopDeferred c \<and> pendingSends c = 0 \<and>
     (pc c = MainSelect \<or> pc c = WaitWg \<or> pc c = Returned)"

text \<open>
  The events by which \<^verbatim>\<open>Monitor\<close> shuts down, how many of them a configuration has
  left at most, and the schedule that takes them one after the other: the main select
  takes \<^verbatim>\<open>ctx.Done()\<close>, the watch and interval goroutines return, \<^verbatim>\<open>exec.Wait\<close>
  returns, \<^verbatim>\<open>wg.Wait()\<close> returns.
\<close>

fun is_shutdown_event :: "event \<Rightarrow> bool" where
  "is_shutdown_event SelectCtxDone = True"
| "is_shutdown_event SelectDone = True"
| "is_shutdown_event WorkerReturn = True"
| "is_shutdown_event (WaitReturn failed) = True"
| "is_shutdown_event WgWaitReturn = True"
| "is_shutdown_event e = False"

definition shutdownLeft :: "monitor \<Rightarrow> nat" where
  "shutdownLeft c =
     (if pc c = MainSelect then 2 else if pc c = WaitWg then 1 else 0) + workers c +
     (if watchdog c then 1 else 0)"

definition shutdownSchedule :: "monitor \<Rightarrow> event list" where
  "shutdownSchedule c =
     (if pc c = MainSelect then [SelectCtxDone] else []) @
     replicate (workers c) WorkerReturn @
     (if watchdog c then [WaitReturn False] else []) @
     (if pc c = Returned then [] else [WgWaitReturn])"

text \<open>
  One round of the retry loop after a failed \<^verbatim>\<open>process\<close>: the select takes the token
  and \<^verbatim>\<open>process\<close> fails, the new goroutine draws its delay and sleeps, wakes with the
  context live, and sends the token.
\<close>

definition retryRound :: "monitor \<Rightarrow> event list" where
  "retryRound c =
     [SelectRetry, SleeperStart (length (sleepers c)), SleeperWake (length (sleepers c)),
      SleeperSend (length (sleepers c))]"

text \<open>
  The retry loop after a cancellation that came while it waited for the token: the main
  goroutine is at the select or has returned, \<^verbatim>\<open>retryChan\<close> is empty, no goroutine of
  the loop is about to send, and no child was started.
\<close>

definition cancelledWait :: "monitor \<Rightarrow> bool" where
  "cancelledWait c \<longleftrightarrow>
     (pc c = RetrySelect \<or> pc c = Returned) \<and> retryChan c = 0 \<and> Sending \<notin> set (sleepers c) \<and>
     ctxDone c \<and> \<not> stopDeferred c"

section \<open>What the stores hold, as maps\<close>

text \<open>
  The content of the store behind a pointer, its keys in the order \<^verbatim>\<open>GetAllKVs\<close>
  lists them, and the keys for which a merge over stores with these key lists logs a
  collision: those a store brings that an earlier store (or the start) had already.
\<close>

definition store_of :: "state \<Rightarrow> addr option \<Rightarrow> (string \<rightharpoonup> string)" where
  "store_of s p = (case p of None \<Rightarrow> Map.empty | Some a \<Rightarrow> DAList.lookup (stores s a))"

definition sorted_keys :: "state \<Rightarrow> addr option \<Rightarrow> string list" where
  "sorted_keys s p = (case p of None \<Rightarrow> [] | Some a \<Rightarrow> map fst (Store_GetAllKVs (stores s a)))"

fun collision_keys :: "string set \<Rightarrow> string list list \<Rightarrow> string list" where
  "collision_keys seen [] = []"
| "collision_keys seen (ks # kss) =
     filter (\<lambda>k. k \<in> seen) ks @ collision_keys (seen \<union> set ks) kss"

section \<open>Reading the trace\<close>

text \<open>
  The calls into the collaborators among the actions of a trace (everything but the log
  entries), the call \<^verbatim>\<open>setVars\<close> makes for a backend, and the calls a renderer
  receives.
\<close>

fun is_call :: "action \<Rightarrow> bool" where
  "is_call (Log l f p) = False"
| "is_call a = True"

definition calls :: "action list \<Rightarrow> action list" where
  "calls tr = filter is_call tr"

definition fetchCall :: "Backend \<Rightarrow> action" where
  "fetchCall b = GetValuesCall (ReadWatcher b) (fetchKeys b)"

fun is_render_call :: "action \<Rightarrow> bool" where
  "is_render_call (CreateStageFileCall p) = True"
| "is_render_call (SyncFilesCall p) = True"
| "is_render_call a = False"

text \<open>
  The actions \<^verbatim>\<open>process\<close> can add to the trace, and those that happen while nothing
  but logging and sleeping goes on.
\<close>

fun is_process_action :: "action \<Rightarrow> bool" where
  "is_process_action (Log l f p) = True"
| "is_process_action (GetValuesCall h ks) = True"
| "is_process_action (CreateStageFileCall p) = True"
| "is_process_action (SyncFilesCall p) = True"
| "is_process_action a = False"

fun is_idle_action :: "action \<Rightarrow> bool" where
  "is_idle_action (Log l f p) = True"
| "is_idle_action (SleepSeconds n) = True"
| "is_idle_action a = False"

fun is_GetValuesCall :: "action \<Rightarrow> bool" where
  "is_GetValuesCall (GetValuesCall h ks) = True"
| "is_GetValuesCall a = False"

section \<open>A concrete resource\<close>

text \<open>
  Two backends in declaration order, a resource over them with the merged store at
  address 0, and two worlds: one where both backends answer, one where the second is
  down. They serve to run the definitions on concrete inputs.
\<close>

definition backendA :: Backend where
  "backendA = \<lparr>ReadWatcher = 1, Backend.Name = ''A'', Prefix = ''/a'', Keys = [''/''],
     Interval = 60, Onetime = False, Watch = False, Backend.store = Some 1\<rparr>"

definition backendB :: Backend where
  "backendB = \<lparr>ReadWatcher = 2, Backend.Name = ''B'', Prefix = ''/b'', Keys = [''/''],
     Interval = 0, Onetime = False, Watch = True, Backend.store = Some 2\<rparr>"

definition demoExec :: Executor where
  "demoExec = \<lparr>config = \<lparr>Command = ''nginx'', ReloadSignal = ''HUP'', KillSignal = ''TERM'',
     KillTimeout = 10, Splay = 0\<rparr>, Executor.logger = [(''resource'', ''demo'')]\<rparr>"

definition demoResource :: Resource where
  "demoResource = \<lparr>backends = [backendA, backendB], Resource.store = Some 0, sources = [0],
     Resource.logger = [(''resource'', ''demo'')], exec = demoExec, Failed = False\<rparr>"

definition demoState :: state where
  "demoState = \<lparr>stores = (\<lambda>a. DAList.empty),
     renderers = (\<lambda>a. \<lparr>Src = ''/etc/demo.tmpl'', ReapLock = None, Renderer.logger = None\<rparr>),
     next_addr = 3, trace = []\<rparr>"

definition envUp :: env where
  "envUp = \<lparr>ConnectAll = (\<lambda>tr c. Inr [backendA\<lparr>Backend.store := None\<rparr>,
                                        backendB\<lparr>Backend.store := None\<rparr>]),
     GetValues = (\<lambda>tr h ks. if h = 1 then Inr [(''/a/k'', ''v1''), (''/a/only'', ''1'')]
                              else Inr [(''/b/k'', ''v2'')]),
     createStageFile = (\<lambda>tr r st. None),
     syncFiles = (\<lambda>tr r. (SyncFilesCall 0 \<notin> set tr, None)),
     SpawnChild = (\<lambda>tr e. None),
     Reload = (\<lambda>tr e. None),
     Int63n = (\<lambda>tr n. 7)\<rparr>"

definition demoConfig :: ResourceConfig where
  "demoConfig = \<lparr>Exec = config demoExec, Template = [0, 1], ResourceConfig.Name = ''demo'',
     Connectors = 0\<rparr>"

definition demoStateEmptySrc :: state where
  "demoStateEmptySrc = demoState\<lparr>renderers := (renderers demoState)
     (1 := \<lparr>Src = [], ReapLock = None, Renderer.logger = None\<rparr>)\<rparr>"

definition envDown :: env where
  "envDown = envUp\<lparr>GetValues := (\<lambda>tr h ks. if h = 1 then Inr [(''/a/k'', ''v1'')]
                              else Inl (ErrorNew ''connection refused''))\<rparr>"

text \<open>
  The resource in the main loop with its two goroutines running and one of them in its
  send, in the retry loop during a delay of seven seconds, after the retry loop and
  before the child is started, and worlds where \<^verbatim>\<open>Reload\<close> or \<^verbatim>\<open>SpawnChild\<close>
  fails.
\<close>

definition demoLoop :: monitor where
  "demoLoop = \<lparr>res = demoResource, mem = demoState, ctxDone = False, retryChan = 0,
     sleepers = [], pc = MainSelect, stopDeferred = True, watchdog = True, workers = 2,
     pendingSends = 1\<rparr>"

definition demoDelay :: monitor where
  "demoDelay = \<lparr>res = demoResource, mem = demoState, ctxDone = False, retryChan = 0,
     sleepers = [Sleeping 7], pc = RetrySelect, stopDeferred = False, watchdog = False,
     workers = 0, pendingSends = 0\<rparr>"

definition demoSpawn :: monitor where
  "demoSpawn = \<lparr>res = demoResource, mem = demoState, ctxDone = False, retryChan = 0,
     sleepers = [Exited], pc = SpawnPhase, stopDeferred = False, watchdog = False,
     workers = 0, pendingSends = 0\<rparr>"

definition envReloadFails :: env where
  "envReloadFails = envUp\<lparr>Reload := (\<lambda>tr e. Some (ErrorNew ''no such process''))\<rparr>"

definition envSpawnFails :: env where
  "envSpawnFails = envUp\<lparr>SpawnChild := (\<lambda>tr e. Some (ErrorNew ''exec: not found''))\<rparr>"

section \<open>Properties of the stores and of the merge\<close>

lemma trace_emit [simp]: "trace (emit a s) = trace s @ [a]"
  and stores_emit [simp]: "stores (emit a s) = stores s"
  and renderers_emit [simp]: "renderers (emit a s) = renderers s"
  and next_addr_emit [simp]: "next_addr (emit a s) = next_addr s"
  by (simp_all add: emit_def)

lemma trace_store_upd [simp]: "trace (store_upd a f s) = trace s"
  and stores_store_upd [simp]: "stores (store_upd a f s) = (stores s)(a := f (stores s a))"
  and renderers_store_upd [simp]: "renderers (store_upd a f s) = renderers s"
  and next_addr_store_upd [simp]: "next_addr (store_upd a f s) = next_addr s"
  by (simp_all add: store_upd_def)

lemma distinct_map_insort_key:
  "distinct (map f (insort_key f x xs)) = (f x \<notin> f ` set xs \<and> distinct (map f xs))"
  by (induction xs) (auto simp: set_insort_key)

lemma distinct_map_sort_key: "distinct (map f (sort_key f xs)) = distinct (map f xs)"
  by (induction xs) (auto simp: distinct_map_insort_key)

lemma distinct_GetAllKVs: "distinct (map fst (Store_GetAllKVs st))"
  by (simp add: Store_GetAllKVs_def distinct_map_sort_key)

lemma map_of_GetAllKVs: "map_of (Store_GetAllKVs st) = DAList.lookup st"
proof -
  have "map_of (sort_key fst (DAList.impl_of st)) = map_of (DAList.impl_of st)"
    by (rule map_of_inject_set [THEN iffD2]) (simp_all add: distinct_map_sort_key)
  then show ?thesis
    by (simp add: Store_GetAllKVs_def DAList.lookup.rep_eq)
qed

lemma lookup_Set: "DAList.lookup (Store_Set k v st) = (DAList.lookup st)(k \<mapsto> v)"
  by (rule ext) (simp add: Store_Set_def DAList.lookup_update)

lemma lookup_Purge: "DAList.lookup (Store_Purge st) = Map.empty"
  by (rule ext) (simp add: Store_Purge_def)

lemma Exists_iff: "Store_Exists k st \<longleftrightarrow> k \<in> dom (DAList.lookup st)"
  by (auto simp: Store_Exists_def)

lemma mergeKVs_frame:
  "renderers (mergeKVs lg m kvs s) = renderers s \<and>
   next_addr (mergeKVs lg m kvs s) = next_addr s \<and>
   (\<forall>a. a \<noteq> m \<longrightarrow> stores (mergeKVs lg m kvs s) a = stores s a)"
  by (induction kvs arbitrary: s) (auto simp: Let_def)

lemma mergeKVs_step:
  "mergeKVs lg m ((k, v) # kvs) s =
     mergeKVs lg m kvs (store_upd m (Store_Set k v)
       (if Store_Exists k (stores s m) then emit (warn lg k) s else s))"
  by (simp add: Let_def)

lemma mergeKVs_lookup:
  "distinct (map fst kvs) \<Longrightarrow>
   DAList.lookup (stores (mergeKVs lg m kvs s) m) = DAList.lookup (stores s m) ++ map_of kvs"
proof (induction kvs arbitrary: s)
  case Nil
  then show ?case by simp
next
  case (Cons kv kvs)
  obtain k v where kv: "kv = (k, v)" by (cases kv)
  from Cons.prems kv have d: "distinct (map fst kvs)" and nk: "k \<notin> fst ` set kvs" by auto
  have nk': "map_of kvs k = None" using nk by (simp add: map_of_eq_None_iff)
  let ?s1 = "store_upd m (Store_Set k v)
       (if Store_Exists k (stores s m) then emit (warn lg k) s else s)"
  have s1: "DAList.lookup (stores ?s1 m) = (DAList.lookup (stores s m))(k \<mapsto> v)"
    by (simp add: lookup_Set)
  have "DAList.lookup (stores (mergeKVs lg m kvs ?s1) m) = (DAList.lookup (stores s m))(k \<mapsto> v) ++ map_of kvs"
    by (simp only: Cons.IH [OF d, of ?s1] s1)
  also have "\<dots> = DAList.lookup (stores s m) ++ map_of ((k, v) # kvs)"
    by (rule ext) (simp add: map_add_def nk' split: option.splits)
  finally show ?case
    by (simp only: kv mergeKVs_step)
qed

lemma mergeKVs_trace:
  "distinct (map fst kvs) \<Longrightarrow>
   trace (mergeKVs lg m kvs s) =
     trace s @ map (warn lg) (filter (\<lambda>k. k \<in> dom (DAList.lookup (stores s m))) (map fst kvs))"
proof (induction kvs arbitrary: s)
  case Nil
  then show ?case by simp
next
  case (Cons kv kvs)
  obtain k v where kv: "kv = (k, v)" by (cases kv)
  from Cons.prems kv have d: "distinct (map fst kvs)" and nk: "k \<notin> fst ` set kvs" by auto
  let ?s1 = "store_upd m (Store_Set k v)
       (if Store_Exists k (stores s m) then emit (warn lg k) s else s)"
  have s1: "DAList.lookup (stores ?s1 m) = (DAList.lookup (stores s m))(k \<mapsto> v)"
    by (simp add: lookup_Set)
  have t1: "trace ?s1 = trace s @ (if k \<in> dom (DAList.lookup (stores s m)) then [warn lg k] else [])"
    by (simp add: Exists_iff)
  have eq: "filter (\<lambda>k'. k' \<in> dom ((DAList.lookup (stores s m))(k \<mapsto> v))) (map fst kvs)
          = filter (\<lambda>k'. k' \<in> dom (DAList.lookup (stores s m))) (map fst kvs)"
    using nk by (intro filter_cong) auto
  have "trace (mergeKVs lg m kvs ?s1) =
     trace ?s1 @ map (warn lg) (filter (\<lambda>k. k \<in> dom (DAList.lookup (stores ?s1 m))) (map fst kvs))"
    by (rule Cons.IH [OF d])
  also have "\<dots> = trace s @ map (warn lg)
       (filter (\<lambda>k. k \<in> dom (DAList.lookup (stores s m))) (map fst ((k, v) # kvs)))"
    by (simp only: s1 t1 eq) simp
  finally show ?case
    by (simp only: kv mergeKVs_step)
qed


lemma set_sorted_keys: "set (sorted_keys s p) = dom (store_of s p)"
proof (cases p)
  case None
  then show ?thesis by (simp add: sorted_keys_def store_of_def)
next
  case (Some a)
  have "fst ` set (Store_GetAllKVs (stores s a)) = dom (map_of (Store_GetAllKVs (stores s a)))"
    by (simp add: dom_map_of_conv_image_fst)
  then show ?thesis
    by (simp add: Some sorted_keys_def store_of_def map_of_GetAllKVs)
qed

lemma mergeBackends_spec:
  assumes "\<forall>v\<in>set vs. Backend.store v \<noteq> None \<and> Backend.store v \<noteq> Some m"
  shows "\<exists>s'. mergeBackends lg m vs s = Some s' \<and>
           renderers s' = renderers s \<and> next_addr s' = next_addr s \<and>
           (\<forall>a. a \<noteq> m \<longrightarrow> stores s' a = stores s a) \<and>
           DAList.lookup (stores s' m) =
             foldl (++) (DAList.lookup (stores s m)) (map (\<lambda>v. store_of s (Backend.store v)) vs) \<and>
           trace s' = trace s @ map (warn lg)
             (collision_keys (dom (DAList.lookup (stores s m)))
                (map (\<lambda>v. sorted_keys s (Backend.store v)) vs))"
  using assms
proof (induction vs arbitrary: s)
  case Nil
  then show ?case by simp
next
  case (Cons v vs)
  from Cons.prems obtain a where a: "Backend.store v = Some a" and am: "a \<noteq> m" by auto
  let ?kvs = "Store_GetAllKVs (stores s a)"
  let ?s1 = "mergeKVs lg m ?kvs s"
  have d: "distinct (map fst ?kvs)" by (rule distinct_GetAllKVs)
  have fr: "renderers ?s1 = renderers s" "next_addr ?s1 = next_addr s"
    "\<And>a. a \<noteq> m \<Longrightarrow> stores ?s1 a = stores s a"
    using mergeKVs_frame [of lg m ?kvs s] by auto
  have same: "store_of ?s1 (Backend.store w) = store_of s (Backend.store w)"
       "sorted_keys ?s1 (Backend.store w) = sorted_keys s (Backend.store w)"
    if "w \<in> set vs" for w
    using Cons.prems that fr(3) by (auto simp: store_of_def sorted_keys_def split: option.splits)
  have lk: "DAList.lookup (stores ?s1 m) = DAList.lookup (stores s m) ++ store_of s (Backend.store v)"
    by (simp add: mergeKVs_lookup [OF d] a store_of_def map_of_GetAllKVs)
  have tr: "trace ?s1 = trace s @ map (warn lg)
      (filter (\<lambda>k. k \<in> dom (DAList.lookup (stores s m))) (sorted_keys s (Backend.store v)))"
    by (simp add: mergeKVs_trace [OF d] a sorted_keys_def)
  from Cons.prems have "\<forall>v\<in>set vs. Backend.store v \<noteq> None \<and> Backend.store v \<noteq> Some m" by simp
  from Cons.IH [OF this, of ?s1] obtain s' where
    s': "mergeBackends lg m vs ?s1 = Some s'"
      "renderers s' = renderers ?s1" "next_addr s' = next_addr ?s1"
      "\<forall>a. a \<noteq> m \<longrightarrow> stores s' a = stores ?s1 a"
      "DAList.lookup (stores s' m) =
         foldl (++) (DAList.lookup (stores ?s1 m)) (map (\<lambda>v. store_of ?s1 (Backend.store v)) vs)"
      "trace s' = trace ?s1 @ map (warn lg)
         (collision_keys (dom (DAList.lookup (stores ?s1 m)))
            (map (\<lambda>v. sorted_keys ?s1 (Backend.store v)) vs))"
    by blast
  have m1: "map (\<lambda>v. store_of ?s1 (Backend.store v)) vs = map (\<lambda>v. store_of s (Backend.store v)) vs"
    and m2: "map (\<lambda>v. sorted_keys ?s1 (Backend.store v)) vs = map (\<lambda>v. sorted_keys s (Backend.store v)) vs"
    using same by (auto intro: map_cong)
  have dm: "dom (DAList.lookup (stores ?s1 m)) =
      dom (DAList.lookup (stores s m)) \<union> set (sorted_keys s (Backend.store v))"
    by (auto simp: lk set_sorted_keys)
  have "mergeBackends lg m (v # vs) s = Some s'"
    using s'(1) a by simp
  moreover have "renderers s' = renderers s" "next_addr s' = next_addr s"
    using s'(2,3) fr by simp_all
  moreover have "\<forall>a. a \<noteq> m \<longrightarrow> stores s' a = stores s a"
    using s'(4) fr(3) by simp
  moreover have "DAList.lookup (stores s' m) =
      foldl (++) (DAList.lookup (stores s m)) (map (\<lambda>v. store_of s (Backend.store v)) (v # vs))"
    by (simp only: s'(5) m1 lk) simp
  moreover have "trace s' = trace s @ map (warn lg)
      (collision_keys (dom (DAList.lookup (stores s m)))
         (map (\<lambda>v. sorted_keys s (Backend.store v)) (v # vs)))"
    by (simp only: s'(6) m2 tr dm) simp
  ultimately show ?case by blast
qed

lemma mergeBackends_Some_stores:
  "mergeBackends lg m vs s = Some s' \<Longrightarrow> \<forall>v\<in>set vs. Backend.store v \<noteq> None"
  by (induction vs arbitrary: s) (auto split: option.splits)


lemma setResult_frame:
  "trace (setResult a p kvs s) = trace s \<and>
   renderers (setResult a p kvs s) = renderers s \<and>
   next_addr (setResult a p kvs s) = next_addr s \<and>
   (\<forall>a'. a' \<noteq> a \<longrightarrow> stores (setResult a p kvs s) a' = stores s a')"
  by (induction kvs arbitrary: s) auto

lemma setVars_error:
  assumes "GetValues env (trace s @ [retrievingEntry t b]) (ReadWatcher b) (fetchKeys b) = Inl e"
  shows "setVars env t b s =
           Some (Some (Wrap e ''getValues failed''),
                 s\<lparr>trace := trace s @ [retrievingEntry t b, GetValuesCall (ReadWatcher b) (fetchKeys b)]\<rparr>)"
  using assms
  by (simp add: setVars_def Let_def retrievingEntry_def fetchKeys_def emit_def)

lemma setVars_Some_error:
  assumes "setVars env t b s = Some (Some err, s')"
  shows "\<exists>e. GetValues env (trace s @ [retrievingEntry t b]) (ReadWatcher b) (fetchKeys b) = Inl e \<and>
             err = Wrap e ''getValues failed'' \<and>
             s' = s\<lparr>trace := trace s @ [retrievingEntry t b, GetValuesCall (ReadWatcher b) (fetchKeys b)]\<rparr>"
  using assms
  by (auto simp: setVars_def Let_def retrievingEntry_def fetchKeys_def emit_def
      split: sum.splits option.splits)

lemma setVars_success:
  assumes m: "Resource.store t = Some m"
    and nm: "\<forall>v\<in>set (backends t). Backend.store v \<noteq> Some m"
    and ok: "setVars env t b s = Some (None, s')"
  shows "\<exists>a result.
           Backend.store b = Some a \<and>
           GetValues env (trace s @ [retrievingEntry t b]) (ReadWatcher b) (fetchKeys b) = Inr result \<and>
           (\<forall>v\<in>set (backends t). Backend.store v \<noteq> None) \<and>
           renderers s' = renderers s \<and> next_addr s' = next_addr s \<and>
           (\<forall>a'. a' \<noteq> a \<and> a' \<noteq> m \<longrightarrow> stores s' a' = stores s a') \<and>
           store_of s' (Some m) =
             foldl (++) Map.empty (map (\<lambda>v. store_of s' (Backend.store v)) (backends t)) \<and>
           trace s' = trace s @ [retrievingEntry t b, GetValuesCall (ReadWatcher b) (fetchKeys b)] @
             map (warn (Resource.logger t))
               (collision_keys {} (map (\<lambda>v. sorted_keys s' (Backend.store v)) (backends t)))"
proof -
  let ?s1 = "emit (retrievingEntry t b) s"
  let ?s2 = "emit (GetValuesCall (ReadWatcher b) (fetchKeys b)) ?s1"
  from ok obtain result where res:
    "GetValues env (trace s @ [retrievingEntry t b]) (ReadWatcher b) (fetchKeys b) = Inr result"
    by (auto simp: setVars_def Let_def retrievingEntry_def fetchKeys_def split: sum.splits)
  from ok res obtain a where a: "Backend.store b = Some a"
    by (auto simp: setVars_def Let_def retrievingEntry_def fetchKeys_def split: option.splits)
  let ?s4 = "setResult a (Prefix b) result (store_upd a Store_Purge ?s2)"
  let ?s4p = "store_upd m Store_Purge ?s4"
  from ok res a m have mb: "mergeBackends (Resource.logger t) m (backends t) ?s4p = Some s'"
    by (auto simp: setVars_def Let_def retrievingEntry_def fetchKeys_def split: option.splits)
  have nn: "\<forall>v\<in>set (backends t). Backend.store v \<noteq> None"
    using mergeBackends_Some_stores [OF mb] .
  with nm have "\<forall>v\<in>set (backends t). Backend.store v \<noteq> None \<and> Backend.store v \<noteq> Some m"
    by simp
  from mergeBackends_spec [OF this, of "Resource.logger t" ?s4p] mb
  have sp: "renderers s' = renderers ?s4p" "next_addr s' = next_addr ?s4p"
      "\<forall>a. a \<noteq> m \<longrightarrow> stores s' a = stores ?s4p a"
      "DAList.lookup (stores s' m) =
         foldl (++) (DAList.lookup (stores ?s4p m))
           (map (\<lambda>v. store_of ?s4p (Backend.store v)) (backends t))"
      "trace s' = trace ?s4p @ map (warn (Resource.logger t))
         (collision_keys (dom (DAList.lookup (stores ?s4p m)))
            (map (\<lambda>v. sorted_keys ?s4p (Backend.store v)) (backends t)))"
    by auto
  have fr4: "trace ?s4 = trace ?s2" "renderers ?s4 = renderers s" "next_addr ?s4 = next_addr s"
      "\<And>a'. a' \<noteq> a \<Longrightarrow> stores ?s4 a' = stores s a'"
    using setResult_frame [of a "Prefix b" result "store_upd a Store_Purge ?s2"] by auto
  have em: "DAList.lookup (stores ?s4p m) = Map.empty"
    by (simp add: lookup_Purge)
  have same: "store_of ?s4p (Backend.store v) = store_of s' (Backend.store v)"
       "sorted_keys ?s4p (Backend.store v) = sorted_keys s' (Backend.store v)"
    if "v \<in> set (backends t)" for v
    using that nm sp(3) by (auto simp: store_of_def sorted_keys_def split: option.splits)
  have m1: "map (\<lambda>v. store_of ?s4p (Backend.store v)) (backends t) =
            map (\<lambda>v. store_of s' (Backend.store v)) (backends t)"
    and m2: "map (\<lambda>v. sorted_keys ?s4p (Backend.store v)) (backends t) =
             map (\<lambda>v. sorted_keys s' (Backend.store v)) (backends t)"
    using same by (auto intro: map_cong)
  have c1: "renderers s' = renderers s" "next_addr s' = next_addr s"
    using sp(1,2) fr4(2,3) by simp_all
  have c2: "\<forall>a'. a' \<noteq> a \<and> a' \<noteq> m \<longrightarrow> stores s' a' = stores s a'"
    using sp(3) fr4(4) by simp
  have c3: "store_of s' (Some m) =
      foldl (++) Map.empty (map (\<lambda>v. store_of s' (Backend.store v)) (backends t))"
  proof -
    have "store_of s' (Some m) = DAList.lookup (stores s' m)"
      by (simp add: store_of_def)
    also have "\<dots> = foldl (++) Map.empty (map (\<lambda>v. store_of ?s4p (Backend.store v)) (backends t))"
      by (simp only: sp(4) em)
    finally show ?thesis by (simp only: m1)
  qed
  have "trace ?s4p = trace s @ [retrievingEntry t b, GetValuesCall (ReadWatcher b) (fetchKeys b)]"
    using fr4(1) by simp
  then have c4: "trace s' = trace s @ [retrievingEntry t b, GetValuesCall (ReadWatcher b) (fetchKeys b)] @
      map (warn (Resource.logger t))
        (collision_keys {} (map (\<lambda>v. sorted_keys s' (Backend.store v)) (backends t)))"
    by (simp only: sp(5) em m2 dom_empty) simp
  from a res nn c1 c2 c3 c4 show ?thesis by blast
qed


lemma calls_simps [simp]:
  "calls [] = []" "calls (xs @ ys) = calls xs @ calls ys"
  "calls (Log l f p # xs) = calls xs" "calls (map (warn lg) ks) = []"
  "calls (fetchCall b # xs) = fetchCall b # calls xs"
  "calls (retrievingEntry t b # xs) = calls xs"
  by (simp_all add: calls_def warn_def fetchCall_def retrievingEntry_def)

lemma mergeKVs_ext:
  "\<exists>ks. trace (mergeKVs lg m kvs s) = trace s @ map (warn lg) ks"
proof (induction kvs arbitrary: s)
  case Nil
  show ?case by (rule exI [of _ "[]"]) simp
next
  case (Cons kv kvs)
  obtain k v where kv: "kv = (k, v)" by (cases kv)
  let ?s1 = "store_upd m (Store_Set k v)
       (if Store_Exists k (stores s m) then emit (warn lg k) s else s)"
  from Cons.IH [of ?s1] obtain ks where
    ks: "trace (mergeKVs lg m kvs ?s1) = trace ?s1 @ map (warn lg) ks" by blast
  show ?case
  proof (cases "Store_Exists k (stores s m)")
    case True
    with ks have "trace (mergeKVs lg m (kv # kvs) s) = trace s @ map (warn lg) (k # ks)"
      by (simp add: kv Let_def)
    then show ?thesis by blast
  next
    case False
    with ks have "trace (mergeKVs lg m (kv # kvs) s) = trace s @ map (warn lg) ks"
      by (simp add: kv Let_def)
    then show ?thesis by blast
  qed
qed

lemma mergeBackends_ext:
  "mergeBackends lg m vs s = Some s' \<Longrightarrow> \<exists>ks. trace s' = trace s @ map (warn lg) ks"
proof (induction vs arbitrary: s)
  case Nil
  then have "trace s' = trace s @ map (warn lg) []" by simp
  then show ?case by blast
next
  case (Cons v vs)
  from Cons.prems obtain a where a: "Backend.store v = Some a"
    by (auto split: option.splits)
  let ?s1 = "mergeKVs lg m (Store_GetAllKVs (stores s a)) s"
  from Cons.prems a have "mergeBackends lg m vs ?s1 = Some s'" by simp
  from Cons.IH [OF this] obtain ks where ks: "trace s' = trace ?s1 @ map (warn lg) ks" by blast
  from mergeKVs_ext [of lg m "Store_GetAllKVs (stores s a)" s] obtain ks0 where
    "trace ?s1 = trace s @ map (warn lg) ks0" by blast
  with ks have "trace s' = trace s @ map (warn lg) (ks0 @ ks)" by simp
  then show ?case by blast
qed

lemma mergeBackends_others:
  "mergeBackends lg m vs s = Some s' \<Longrightarrow>
     renderers s' = renderers s \<and> next_addr s' = next_addr s \<and>
     (\<forall>a. a \<noteq> m \<longrightarrow> stores s' a = stores s a)"
proof (induction vs arbitrary: s)
  case Nil
  then show ?case by simp
next
  case (Cons v vs)
  from Cons.prems obtain a where a: "Backend.store v = Some a"
    by (auto split: option.splits)
  let ?s1 = "mergeKVs lg m (Store_GetAllKVs (stores s a)) s"
  from Cons.prems a have "mergeBackends lg m vs ?s1 = Some s'" by simp
  from Cons.IH [OF this] mergeKVs_frame [of lg m "Store_GetAllKVs (stores s a)" s]
  show ?case by simp
qed

text \<open>What any returning call of setVars does to the trace and to the stores.\<close>

lemma setVars_ext:
  assumes "setVars env t b s = Some (r, s')"
  shows "\<exists>ks. trace s' = trace s @ [retrievingEntry t b, fetchCall b] @ map (warn (Resource.logger t)) ks"
proof (cases r)
  case (Some err)
  with setVars_Some_error [of env t b s err s'] assms
  have "trace s' = trace s @ [retrievingEntry t b, fetchCall b] @ map (warn (Resource.logger t)) []"
    by (auto simp: fetchCall_def)
  then show ?thesis by blast
next
  case None
  let ?s2 = "emit (fetchCall b) (emit (retrievingEntry t b) s)"
  from assms None obtain result a m where
    a: "Backend.store b = Some a" and m: "Resource.store t = Some m" and
    mb: "mergeBackends (Resource.logger t) m (backends t)
          (store_upd m Store_Purge (setResult a (Prefix b) result (store_upd a Store_Purge ?s2))) = Some s'"
    by (auto simp: setVars_def Let_def fetchCall_def split: sum.splits option.splits)
  from mergeBackends_ext [OF mb] obtain ks where
    "trace s' = trace (store_upd m Store_Purge (setResult a (Prefix b) result (store_upd a Store_Purge ?s2)))
        @ map (warn (Resource.logger t)) ks" by blast
  then have "trace s' = trace s @ [retrievingEntry t b, fetchCall b] @ map (warn (Resource.logger t)) ks"
    using setResult_frame [of a "Prefix b" result "store_upd a Store_Purge ?s2"] by simp
  then show ?thesis by blast
qed

lemma setVars_others:
  assumes "setVars env t b s = Some (r, s')"
  shows "renderers s' = renderers s \<and> next_addr s' = next_addr s \<and>
         (\<forall>a. Some a \<noteq> Backend.store b \<and> Some a \<noteq> Resource.store t \<longrightarrow> stores s' a = stores s a)"
proof (cases r)
  case (Some err)
  with setVars_Some_error [of env t b s err s'] assms show ?thesis by auto
next
  case None
  let ?s2 = "emit (fetchCall b) (emit (retrievingEntry t b) s)"
  from assms None obtain result a m where
    a: "Backend.store b = Some a" and m: "Resource.store t = Some m" and
    mb: "mergeBackends (Resource.logger t) m (backends t)
          (store_upd m Store_Purge (setResult a (Prefix b) result (store_upd a Store_Purge ?s2))) = Some s'"
    by (auto simp: setVars_def Let_def fetchCall_def split: sum.splits option.splits)
  from mergeBackends_others [OF mb]
    setResult_frame [of a "Prefix b" result "store_upd a Store_Purge ?s2"]
  show ?thesis by (simp add: a m)
qed

lemma setVars_calls:
  assumes "setVars env t b s = Some (r, s')"
  shows "calls (trace s') = calls (trace s) @ [fetchCall b]"
  using setVars_ext [OF assms] by auto


lemma setVarsAll_append:
  "setVarsAll env t (xs @ ys) s =
     (case setVarsAll env t xs s of
        None \<Rightarrow> None
      | Some (Some e, s1) \<Rightarrow> Some (Some e, s1)
      | Some (None, s1) \<Rightarrow> setVarsAll env t ys s1)"
  by (induction xs arbitrary: s) (auto split: option.splits)

lemma setVarsAll_ok_ext:
  "setVarsAll env t bs s = Some (None, s') \<Longrightarrow>
     \<exists>ext. trace s' = trace s @ ext \<and> calls ext = map fetchCall bs"
proof (induction bs arbitrary: s)
  case Nil
  then have "trace s' = trace s @ [] \<and> calls [] = map fetchCall []" by simp
  then show ?case by blast
next
  case (Cons b bs)
  from Cons.prems obtain s1 where
    s1: "setVars env t b s = Some (None, s1)" and r: "setVarsAll env t bs s1 = Some (None, s')"
    by (auto split: option.splits)
  from setVars_ext [OF s1] obtain ks where
    e1: "trace s1 = trace s @ [retrievingEntry t b, fetchCall b] @ map (warn (Resource.logger t)) ks"
    by blast
  from Cons.IH [OF r] obtain ext where e2: "trace s' = trace s1 @ ext" "calls ext = map fetchCall bs"
    by blast
  let ?ext = "[retrievingEntry t b, fetchCall b] @ map (warn (Resource.logger t)) ks @ ext"
  have "trace s' = trace s @ ?ext \<and> calls ?ext = map fetchCall (b # bs)"
    using e1 e2 by simp
  then show ?case by blast
qed

lemma setVarsAll_ok_others:
  "setVarsAll env t bs s = Some (None, s') \<Longrightarrow>
     renderers s' = renderers s \<and> next_addr s' = next_addr s"
proof (induction bs arbitrary: s)
  case Nil
  then show ?case by simp
next
  case (Cons b bs)
  from Cons.prems obtain s1 where
    s1: "setVars env t b s = Some (None, s1)" and r: "setVarsAll env t bs s1 = Some (None, s')"
    by (auto split: option.splits)
  from setVars_others [OF s1] Cons.IH [OF r] show ?case by simp
qed

text \<open>A successful run over a non-empty list ends with a successful setVars.\<close>

lemma setVarsAll_last:
  "bs \<noteq> [] \<Longrightarrow> setVarsAll env t bs s = Some (None, s') \<Longrightarrow>
     \<exists>s0 pre. setVars env t (last bs) s0 = Some (None, s') \<and> trace s0 = trace s @ pre"
proof (induction bs arbitrary: s)
  case Nil
  then show ?case by simp
next
  case (Cons b bs)
  from Cons.prems obtain s1 where
    s1: "setVars env t b s = Some (None, s1)" and r: "setVarsAll env t bs s1 = Some (None, s')"
    by (auto split: option.splits)
  show ?case
  proof (cases "bs = []")
    case True
    with s1 r have "setVars env t (last (b # bs)) s = Some (None, s') \<and> trace s = trace s @ []"
      by simp
    then show ?thesis by blast
  next
    case False
    from Cons.IH [OF False r] obtain s0 pre where
      s0: "setVars env t (last bs) s0 = Some (None, s')" "trace s0 = trace s1 @ pre" by blast
    from setVars_ext [OF s1] obtain ext where "trace s1 = trace s @ ext" by blast
    with s0 False have "setVars env t (last (b # bs)) s0 = Some (None, s') \<and>
        trace s0 = trace s @ (ext @ pre)" by simp
    then show ?thesis by blast
  qed
qed

lemma stageAndSync_frame:
  "stageAndSync env t ps ch s = (ch', err, s') \<Longrightarrow>
     stores s' = stores s \<and> renderers s' = renderers s \<and> next_addr s' = next_addr s \<and>
     (\<exists>ext. trace s' = trace s @ ext \<and> (\<forall>a\<in>set ext. is_render_call a))"
proof (induction ps arbitrary: ch s)
  case Nil
  then have "trace s' = trace s @ []" by simp
  with Nil show ?case by auto
next
  case (Cons p ps)
  let ?s1 = "emit (CreateStageFileCall p) s"
  let ?s2 = "emit (SyncFilesCall p) ?s1"
  show ?case
  proof (cases "createStageFile env (trace s) (renderers s p) (map_option (stores s) (Resource.store t))")
    case (Some e)
    with Cons.prems have "s' = ?s1" by simp
    then have "stores s' = stores s \<and> renderers s' = renderers s \<and> next_addr s' = next_addr s \<and>
       trace s' = trace s @ [CreateStageFileCall p]" by simp
    then show ?thesis by auto
  next
    case None
    obtain c err2 where sf: "syncFiles env (trace ?s1) (renderers ?s1 p) = (c, err2)"
      by (cases "syncFiles env (trace ?s1) (renderers ?s1 p)")
    show ?thesis
    proof (cases err2)
      case (Some e)
      with Cons.prems None sf have "s' = ?s2" by (simp add: Let_def)
      then have "stores s' = stores s \<and> renderers s' = renderers s \<and> next_addr s' = next_addr s \<and>
         trace s' = trace s @ [CreateStageFileCall p, SyncFilesCall p]" by simp
      then show ?thesis by auto
    next
      case n2: None
      with Cons.prems None sf have "stageAndSync env t ps (ch \<or> c) ?s2 = (ch', err, s')"
        by (simp add: Let_def)
      from Cons.IH [OF this] obtain ext where
        i: "stores s' = stores s" "renderers s' = renderers s" "next_addr s' = next_addr s"
          "trace s' = trace ?s2 @ ext" "\<forall>a\<in>set ext. is_render_call a" by auto
      let ?ext = "[CreateStageFileCall p, SyncFilesCall p] @ ext"
      have "trace s' = trace s @ ?ext \<and> (\<forall>a\<in>set ?ext. is_render_call a)"
        using i(4,5) by simp
      with i(1,2,3) show ?thesis by blast
    qed
  qed
qed

lemma foldl_map_add_dom:
  "dom (foldl (++) m0 ms) = dom m0 \<union> (\<Union>m\<in>set ms. dom m)"
  by (induction ms arbitrary: m0) auto

lemma foldl_map_add_None:
  "m0 k = None \<Longrightarrow> \<forall>m\<in>set ms. m k = None \<Longrightarrow> foldl (++) m0 ms k = None"
  by (induction ms arbitrary: m0) (auto simp: map_add_def)

lemma foldl_map_add_keep:
  "\<forall>m\<in>set ms. m k = None \<Longrightarrow> foldl (++) m0 ms k = m0 k"
  by (induction ms arbitrary: m0) (auto simp: map_add_def)

lemma foldl_map_add_last:
  "i < length ms \<Longrightarrow> (ms ! i) k = Some v \<Longrightarrow>
   \<forall>j. i < j \<and> j < length ms \<longrightarrow> (ms ! j) k = None \<Longrightarrow>
   foldl (++) m0 ms k = Some v"
proof (induction ms arbitrary: m0 i)
  case Nil
  then show ?case by simp
next
  case (Cons m ms)
  show ?case
  proof (cases i)
    case 0
    with Cons.prems have mk: "m k = Some v" by simp
    have "\<forall>m'\<in>set ms. m' k = None"
    proof
      fix m' assume "m' \<in> set ms"
      then obtain j where "j < length ms" "ms ! j = m'" by (auto simp: in_set_conv_nth)
      with Cons.prems(3) [rule_format, of "Suc j"] 0 show "m' k = None" by simp
    qed
    then have "foldl (++) (m0 ++ m) ms k = (m0 ++ m) k" by (rule foldl_map_add_keep)
    moreover have "(m0 ++ m) k = Some v" using mk by (simp add: map_add_def)
    ultimately show ?thesis by simp
  next
    case (Suc i')
    with Cons.prems have a: "i' < length ms" "(ms ! i') k = Some v" by simp_all
    have b: "\<forall>j. i' < j \<and> j < length ms \<longrightarrow> (ms ! j) k = None"
    proof (intro allI impI)
      fix j assume "i' < j \<and> j < length ms"
      with Cons.prems(3) [rule_format, of "Suc j"] Suc show "(ms ! j) k = None" by simp
    qed
    from Cons.IH [OF a b] show ?thesis by simp
  qed
qed

lemma collision_keys_seen:
  "j < length kss \<Longrightarrow> k \<in> set (kss ! j) \<Longrightarrow> k \<in> seen \<Longrightarrow> k \<in> set (collision_keys seen kss)"
proof (induction kss arbitrary: seen j)
  case Nil
  then show ?case by simp
next
  case (Cons ks kss)
  show ?case
  proof (cases j)
    case 0
    with Cons.prems show ?thesis by simp
  next
    case (Suc j')
    with Cons.prems have "j' < length kss" "k \<in> set (kss ! j')" "k \<in> seen \<union> set ks" by simp_all
    from Cons.IH [OF this] show ?thesis by simp
  qed
qed

lemma collision_keys_pair:
  "i < j \<Longrightarrow> j < length kss \<Longrightarrow> k \<in> set (kss ! i) \<Longrightarrow> k \<in> set (kss ! j) \<Longrightarrow>
   k \<in> set (collision_keys seen kss)"
proof (induction kss arbitrary: seen i j)
  case Nil
  then show ?case by simp
next
  case (Cons ks kss)
  from Cons.prems(1) obtain j' where j: "j = Suc j'" by (cases j) auto
  with Cons.prems have j': "j' < length kss" "k \<in> set (kss ! j')" by simp_all
  show ?case
  proof (cases i)
    case 0
    with Cons.prems have "k \<in> seen \<union> set ks" by simp
    from collision_keys_seen [OF j' this] show ?thesis by simp
  next
    case (Suc i')
    with Cons.prems j have "i' < j'" "k \<in> set (kss ! i')" by simp_all
    from Cons.IH [OF this(1) j'(1) this(2) j'(2)] show ?thesis by simp
  qed
qed


section \<open>The model on concrete inputs\<close>

lemma path_Join_root_example1: "path_Join_root (TrimPrefix ''/a/k'' ''/a'') = ''/k''"
  by (simp add: path_Join_root_def)
lemma path_Join_root_example2: "path_Join_root (TrimPrefix ''/a/../k/./x//y/'' ''/b'') = ''/k/x/y''"
  by (simp add: path_Join_root_def)
lemma path_Join_root_example3: "path_Join_root (TrimPrefix ''/a'' ''/a'') = ''/''"
  by (simp add: path_Join_root_def)

lemmas demo_defs = backendA_def backendB_def demoExec_def demoResource_def demoState_def
  envUp_def envDown_def demoConfig_def demoStateEmptySrc_def

lemmas eval_defs = process_def setVars_def Let_def emit_def store_upd_def
  createStageFileAndSync_def retrievingEntry_def fetchKeys_def fetchCall_def appendPrefix_def
  warn_def Store_Purge_def Store_Set_def Store_Exists_def Store_GetAllKVs_def
  path_Join_root_def DAList.lookup_update DAList.update.rep_eq DAList.empty.rep_eq
  store_of_def


section \<open>setVars and process: errors\<close>

text \<open>
  Claim C9. When \<^verbatim>\<open>GetValues\<close> fails, \<^verbatim>\<open>setVars\<close> returns that error (wrapped as
  \<^verbatim>\<open>getValues failed\<close>) and no store is touched: the backend's own store and the
  merged store hold what they held before the call.
\<close>

theorem setVars_fetch_error_keeps_stores:
  assumes "GetValues env (trace s @ [retrievingEntry t b]) (ReadWatcher b) (fetchKeys b) = Inl e"
  shows "\<exists>s'. setVars env t b s = Some (Some (Wrap e ''getValues failed''), s') \<and>
              stores s' = stores s \<and>
              store_of s' (Backend.store b) = store_of s (Backend.store b) \<and>
              store_of s' (Resource.store t) = store_of s (Resource.store t)"
proof -
  let ?s' = "s\<lparr>trace := trace s @ [retrievingEntry t b, GetValuesCall (ReadWatcher b) (fetchKeys b)]\<rparr>"
  have "setVars env t b s = Some (Some (Wrap e ''getValues failed''), ?s')"
    by (rule setVars_error [OF assms])
  moreover have "stores ?s' = stores s" by simp
  moreover have "store_of ?s' p = store_of s p" for p
    by (simp add: store_of_def split: option.splits)
  ultimately show ?thesis by blast
qed

theorem setVars_fetch_error_keeps_stores_witness:
  "GetValues envDown (trace demoState @ [retrievingEntry demoResource backendB])
      (ReadWatcher backendB) (fetchKeys backendB) = Inl (ErrorNew ''connection refused'') \<and>
   (\<exists>s'. setVars envDown demoResource backendB demoState =
            Some (Some (Wrap (ErrorNew ''connection refused'') ''getValues failed''), s') \<and>
          stores s' = stores demoState \<and>
          store_of s' (Backend.store backendB) = store_of demoState (Backend.store backendB) \<and>
          store_of s' (Resource.store demoResource) = store_of demoState (Resource.store demoResource))"
proof -
  have h: "GetValues envDown (trace demoState @ [retrievingEntry demoResource backendB])
      (ReadWatcher backendB) (fetchKeys backendB) = Inl (ErrorNew ''connection refused'')"
    by (simp add: envDown_def envUp_def backendB_def)
  from setVars_fetch_error_keeps_stores [OF h] h show ?thesis by blast
qed

text \<open>
  Claim C6. When \<^verbatim>\<open>setVars\<close> fails for a backend during \<^verbatim>\<open>process\<close> (the backends
  before it were set), \<^verbatim>\<open>process\<close> returns at once: unchanged, with the
  \<^verbatim>\<open>BackendError\<close> that names this backend and whose message wraps the failure of
  \<^verbatim>\<open>GetValues\<close>; the state is the one the failed \<^verbatim>\<open>setVars\<close> left, and the only
  calls made are the fetches up to this backend, so no renderer was staged or synced.
\<close>

theorem process_setVars_failure:
  assumes "storeClients = before @ b # rest"
    and "setVarsAll env t before s = Some (None, s1)"
    and "setVars env t b s1 = Some (Some e, s2)"
  shows "process env t storeClients s =
           Some (False, Some (BackendError (''setVars failed: '' @ Error e) (Backend.Name b)), s2) \<and>
         (\<exists>e0. GetValues env (trace s1 @ [retrievingEntry t b]) (ReadWatcher b) (fetchKeys b) = Inl e0 \<and>
               Error e = ''getValues failed: '' @ Error e0) \<and>
         calls (drop (length (trace s)) (trace s2)) = map fetchCall (before @ [b]) \<and>
         (\<forall>a \<in> set (drop (length (trace s)) (trace s2)). \<not> is_render_call a)"
proof -
  have "setVarsAll env t (b # rest) s1 =
      Some (Some (BackendError (''setVars failed: '' @ Error e) (Backend.Name b)), s2)"
    using assms(3) by simp
  then have "setVarsAll env t storeClients s =
      Some (Some (BackendError (''setVars failed: '' @ Error e) (Backend.Name b)), s2)"
    by (simp only: assms(1) setVarsAll_append [of env t before "b # rest" s] assms(2)
        option.case prod.case)
  then have p: "process env t storeClients s =
      Some (False, Some (BackendError (''setVars failed: '' @ Error e) (Backend.Name b)), s2)"
    by (simp add: process_def)
  from setVars_Some_error [OF assms(3)] obtain e0 where
    e0: "GetValues env (trace s1 @ [retrievingEntry t b]) (ReadWatcher b) (fetchKeys b) = Inl e0"
      "e = Wrap e0 ''getValues failed''"
      "s2 = s1\<lparr>trace := trace s1 @ [retrievingEntry t b, GetValuesCall (ReadWatcher b) (fetchKeys b)]\<rparr>"
    by blast
  from setVarsAll_ok_ext [OF assms(2)] obtain ext where
    ext: "trace s1 = trace s @ ext" "calls ext = map fetchCall before" by blast
  have d: "drop (length (trace s)) (trace s2) = ext @ [retrievingEntry t b, fetchCall b]"
    using e0(3) ext(1) by (simp add: fetchCall_def)
  have c: "calls (drop (length (trace s)) (trace s2)) = map fetchCall (before @ [b])"
    by (simp add: d ext(2))
  have "\<not> is_render_call a" if "a \<in> set (drop (length (trace s)) (trace s2))" for a
  proof
    assume r: "is_render_call a"
    then have "is_call a" by (cases a) simp_all
    with that have "a \<in> set (calls (drop (length (trace s)) (trace s2)))"
      by (simp add: calls_def)
    then have "a \<in> fetchCall ` set (before @ [b])" by (simp only: c set_map)
    with r show False by (auto simp: fetchCall_def)
  qed
  with p e0(1,2) c show ?thesis by auto
qed

theorem process_setVars_failure_witness:
  "\<exists>s1 e s2.
     [backendA, backendB] = [backendA] @ backendB # [] \<and>
     setVarsAll envDown demoResource [backendA] demoState = Some (None, s1) \<and>
     setVars envDown demoResource backendB s1 = Some (Some e, s2) \<and>
     process envDown demoResource [backendA, backendB] demoState =
       Some (False,
             Some (BackendError ''setVars failed: getValues failed: connection refused'' ''B''), s2) \<and>
     calls (drop (length (trace demoState)) (trace s2)) = map fetchCall ([backendA] @ [backendB]) \<and>
     (\<forall>a \<in> set (drop (length (trace demoState)) (trace s2)). \<not> is_render_call a)"
proof -
  have h1: "[backendA, backendB] = [backendA] @ backendB # []" by simp
  have "\<exists>s1. setVarsAll envDown demoResource [backendA] demoState = Some (None, s1)"
    by (simp add: demo_defs eval_defs)
  then obtain s1 where h2: "setVarsAll envDown demoResource [backendA] demoState = Some (None, s1)"
    by blast
  have g: "GetValues envDown (trace s1 @ [retrievingEntry demoResource backendB])
      (ReadWatcher backendB) (fetchKeys backendB) = Inl (ErrorNew ''connection refused'')"
    by (simp add: envDown_def envUp_def backendB_def)
  from setVars_error [OF g] obtain s2 where
    h3: "setVars envDown demoResource backendB s1 =
           Some (Some (Wrap (ErrorNew ''connection refused'') ''getValues failed''), s2)"
    by blast
  from process_setVars_failure [OF h1 h2 h3] h1 h2 h3 show ?thesis
    by (simp add: backendB_def)
qed

lemma store_of_cong: "stores s' = stores s \<Longrightarrow> store_of s' p = store_of s p"
  by (cases p) (simp_all add: store_of_def)

lemma sorted_keys_cong: "stores s' = stores s \<Longrightarrow> sorted_keys s' p = sorted_keys s p"
  by (cases p) (simp_all add: sorted_keys_def)

lemma process_ok_split:
  assumes "process env t bs s = Some (changed, None, s')"
  shows "\<exists>s1 ext. setVarsAll env t bs s = Some (None, s1) \<and> stores s' = stores s1 \<and>
           trace s' = trace s1 @ ext \<and> (\<forall>a\<in>set ext. is_render_call a)"
proof -
  from assms obtain s1 where s1: "setVarsAll env t bs s = Some (None, s1)"
    by (auto simp: process_def split: option.splits prod.splits)
  with assms have "stageAndSync env t (sources t) False s1 = (changed, None, s')"
    by (auto simp: process_def createStageFileAndSync_def split: option.splits prod.splits)
  from stageAndSync_frame [OF this] s1 show ?thesis by blast
qed

section \<open>process over the full backend list\<close>

text \<open>
  Claim C1. After a successful \<^verbatim>\<open>process\<close> over the full backend list (of a resource as
  \<^verbatim>\<open>NewResource\<close> builds it: at least one backend, the merged store apart from the
  backends' stores), the merged store holds exactly the keys of the backends' stores,
  each key with the value of the last backend in declaration order that has it, and
  for every key that two backends hold a collision warning was logged during the call.
\<close>

theorem process_all_merges_union:
  assumes "backends t \<noteq> []"
    and "Resource.store t = Some m"
    and "\<forall>v\<in>set (backends t). Backend.store v \<noteq> Some m"
    and "process env t (backends t) s = Some (changed, None, s')"
  shows "dom (store_of s' (Some m)) = (\<Union>v\<in>set (backends t). dom (store_of s' (Backend.store v))) \<and>
         (\<forall>i k v. i < length (backends t) \<and>
              store_of s' (Backend.store (backends t ! i)) k = Some v \<and>
              (\<forall>j. i < j \<and> j < length (backends t) \<longrightarrow>
                   store_of s' (Backend.store (backends t ! j)) k = None)
            \<longrightarrow> store_of s' (Some m) k = Some v) \<and>
         (\<forall>i j k. i < j \<and> j < length (backends t) \<and>
              k \<in> dom (store_of s' (Backend.store (backends t ! i))) \<and>
              k \<in> dom (store_of s' (Backend.store (backends t ! j)))
            \<longrightarrow> warn (Resource.logger t) k \<in> set (drop (length (trace s)) (trace s')))"
proof -
  let ?bs = "backends t"
  let ?ms = "map (\<lambda>v. store_of s' (Backend.store v)) ?bs"
  let ?kss = "map (\<lambda>v. sorted_keys s' (Backend.store v)) ?bs"
  from process_ok_split [OF assms(4)] obtain s1 ext where
    s1: "setVarsAll env t ?bs s = Some (None, s1)" "stores s' = stores s1"
      "trace s' = trace s1 @ ext" by blast
  from setVarsAll_last [OF assms(1) s1(1)] obtain s0 pre where
    s0: "setVars env t (last ?bs) s0 = Some (None, s1)" "trace s0 = trace s @ pre" by blast
  from setVars_success [OF assms(2,3) s0(1)]
  obtain a0 r0 where "Backend.store (last ?bs) = Some a0"
    "GetValues env (trace s0 @ [retrievingEntry t (last ?bs)]) (ReadWatcher (last ?bs))
       (fetchKeys (last ?bs)) = Inr r0"
    and mg1: "store_of s1 (Some m) =
        foldl (++) Map.empty (map (\<lambda>v. store_of s1 (Backend.store v)) ?bs)"
    and tr1: "trace s1 = trace s0 @ [retrievingEntry t (last ?bs),
          GetValuesCall (ReadWatcher (last ?bs)) (fetchKeys (last ?bs))] @
        map (warn (Resource.logger t))
          (collision_keys {} (map (\<lambda>v. sorted_keys s1 (Backend.store v)) ?bs))"
    by blast
  have mg: "store_of s' (Some m) = foldl (++) Map.empty ?ms"
    using mg1 by (simp add: store_of_cong [OF s1(2)])
  have tr: "drop (length (trace s)) (trace s') =
      pre @ [retrievingEntry t (last ?bs),
             GetValuesCall (ReadWatcher (last ?bs)) (fetchKeys (last ?bs))] @
      map (warn (Resource.logger t)) (collision_keys {} ?kss) @ ext"
    using tr1 s1(3) s0(2) by (simp add: sorted_keys_cong [OF s1(2)])
  have c1: "dom (store_of s' (Some m)) = (\<Union>v\<in>set ?bs. dom (store_of s' (Backend.store v)))"
    by (simp add: mg foldl_map_add_dom)
  have c2: "store_of s' (Some m) k = Some v"
    if "i < length ?bs" "store_of s' (Backend.store (?bs ! i)) k = Some v"
      "\<forall>j. i < j \<and> j < length ?bs \<longrightarrow> store_of s' (Backend.store (?bs ! j)) k = None"
    for i k v
  proof -
    have "foldl (++) Map.empty ?ms k = Some v"
      by (rule foldl_map_add_last [of i]) (use that in simp_all)
    then show ?thesis by (simp only: mg)
  qed
  have c3: "warn (Resource.logger t) k \<in> set (drop (length (trace s)) (trace s'))"
    if "i < j" "j < length ?bs" "k \<in> dom (store_of s' (Backend.store (?bs ! i)))"
      "k \<in> dom (store_of s' (Backend.store (?bs ! j)))" for i j k
  proof -
    have "k \<in> set (collision_keys {} ?kss)"
      by (rule collision_keys_pair [of i j]) (use that in \<open>simp_all add: set_sorted_keys\<close>)
    then show ?thesis by (simp add: tr)
  qed
  show ?thesis
  proof (intro conjI allI impI)
    show "dom (store_of s' (Some m)) = (\<Union>v\<in>set ?bs. dom (store_of s' (Backend.store v)))"
      by (rule c1)
  next
    fix i k v
    assume "i < length ?bs \<and> store_of s' (Backend.store (?bs ! i)) k = Some v \<and>
      (\<forall>j. i < j \<and> j < length ?bs \<longrightarrow> store_of s' (Backend.store (?bs ! j)) k = None)"
    then show "store_of s' (Some m) k = Some v"
      using c2 [of i k v] by (elim conjE)
  next
    fix i j k
    assume "i < j \<and> j < length ?bs \<and> k \<in> dom (store_of s' (Backend.store (?bs ! i))) \<and>
      k \<in> dom (store_of s' (Backend.store (?bs ! j)))"
    then show "warn (Resource.logger t) k \<in> set (drop (length (trace s)) (trace s'))"
      using c3 [of i j k] by (elim conjE)
  qed
qed

theorem process_all_merges_union_witness:
  "backends demoResource \<noteq> [] \<and> Resource.store demoResource = Some 0 \<and>
   Backend.store backendA \<noteq> Some 0 \<and> Backend.store backendB \<noteq> Some 0 \<and>
   (\<exists>s'. process envUp demoResource (backends demoResource) demoState = Some (True, None, s') \<and>
      store_of s' (Backend.store backendA) ''/k'' = Some ''v1'' \<and>
      store_of s' (Backend.store backendA) ''/only'' = Some ''1'' \<and>
      store_of s' (Backend.store backendB) ''/k'' = Some ''v2'' \<and>
      store_of s' (Backend.store backendB) ''/only'' = None \<and>
      dom (store_of s' (Some 0)) =
        (\<Union>v\<in>set (backends demoResource). dom (store_of s' (Backend.store v))) \<and>
      store_of s' (Some 0) ''/k'' = Some ''v2'' \<and>
      store_of s' (Some 0) ''/only'' = Some ''1'' \<and>
      warn (Resource.logger demoResource) ''/k''
        \<in> set (drop (length (trace demoState)) (trace s')))"
proof -
  have h1: "backends demoResource \<noteq> []" by (simp add: demoResource_def)
  have h2: "Resource.store demoResource = Some 0" by (simp add: demoResource_def)
  have h3: "\<forall>v\<in>set (backends demoResource). Backend.store v \<noteq> Some 0"
    by (simp add: demoResource_def backendA_def backendB_def)
  have "\<exists>s'. process envUp demoResource (backends demoResource) demoState = Some (True, None, s') \<and>
      store_of s' (Backend.store backendA) ''/k'' = Some ''v1'' \<and>
      store_of s' (Backend.store backendA) ''/only'' = Some ''1'' \<and>
      store_of s' (Backend.store backendB) ''/k'' = Some ''v2'' \<and>
      store_of s' (Backend.store backendB) ''/only'' = None"
    by (simp add: demo_defs eval_defs)
  then obtain s' where
    h4: "process envUp demoResource (backends demoResource) demoState = Some (True, None, s')"
    and a: "store_of s' (Backend.store backendA) ''/k'' = Some ''v1''"
       "store_of s' (Backend.store backendA) ''/only'' = Some ''1''"
    and b: "store_of s' (Backend.store backendB) ''/k'' = Some ''v2''"
       "store_of s' (Backend.store backendB) ''/only'' = None"
    by blast
  note c = process_all_merges_union [OF h1 h2 h3 h4]
  have bs: "backends demoResource = [backendA, backendB]" by (simp add: demoResource_def)
  have c1: "dom (store_of s' (Some 0)) =
        (\<Union>v\<in>set (backends demoResource). dom (store_of s' (Backend.store v)))"
    using c by (rule conjunct1)
  have c2: "store_of s' (Some 0) k = Some v"
    if "i < length (backends demoResource)"
      "store_of s' (Backend.store (backends demoResource ! i)) k = Some v"
      "\<forall>j. i < j \<and> j < length (backends demoResource) \<longrightarrow>
                   store_of s' (Backend.store (backends demoResource ! j)) k = None" for i k v
    using c that by blast
  have c3: "warn (Resource.logger demoResource) k \<in> set (drop (length (trace demoState)) (trace s'))"
    if "i < j" "j < length (backends demoResource)"
      "k \<in> dom (store_of s' (Backend.store (backends demoResource ! i)))"
      "k \<in> dom (store_of s' (Backend.store (backends demoResource ! j)))" for i j k
    using c that by blast
  have k: "store_of s' (Some 0) ''/k'' = Some ''v2''"
    by (rule c2 [of 1]) (simp_all add: bs b)
  have o: "store_of s' (Some 0) ''/only'' = Some ''1''"
  proof (rule c2 [of 0])
    show "\<forall>j. 0 < j \<and> j < length (backends demoResource) \<longrightarrow>
                   store_of s' (Backend.store (backends demoResource ! j)) ''/only'' = None"
    proof (intro allI impI)
      fix j assume "0 < j \<and> j < length (backends demoResource)"
      then have "j = 1" by (simp add: bs)
      then show "store_of s' (Backend.store (backends demoResource ! j)) ''/only'' = None"
        by (simp add: bs b)
    qed
  qed (simp_all add: bs a)
  have w: "warn (Resource.logger demoResource) ''/k''
        \<in> set (drop (length (trace demoState)) (trace s'))"
    by (rule c3 [of 0 1]) (simp_all add: bs a b domI)
  have h3': "Backend.store backendA \<noteq> Some 0" "Backend.store backendB \<noteq> Some 0"
    by (simp_all add: backendA_def backendB_def)
  show ?thesis
    by (rule conjI [OF h1], rule conjI [OF h2], intro conjI h3', rule exI [of _ s'])
       (intro conjI h4 a b c1 k o w)
qed

lemma is_GetValuesCall_warn [simp]: "\<not> is_GetValuesCall (warn lg k)"
  by (simp add: warn_def)

lemma filter_GetValues_render:
  "\<forall>a\<in>set ext. is_render_call a \<Longrightarrow> filter is_GetValuesCall ext = []"
proof (induction ext)
  case Nil
  then show ?case by simp
next
  case (Cons a ext)
  then have "is_render_call a" by simp
  then have "\<not> is_GetValuesCall a" by (cases a) simp_all
  with Cons show ?case by simp
qed

lemma filter_GetValues_warns [simp]: "filter is_GetValuesCall (map (warn lg) ks) = []"
  by (induction ks) simp_all

section \<open>process for one backend\<close>

text \<open>
  \<^verbatim>\<open>process\<close> on one backend \<open>b\<close> alone, a copy of one of the resource's backends:
  the one \<^verbatim>\<open>GetValues\<close> call is the one for \<open>b\<close>, the store of every other backend
  holds what it held, and unless the fetch failed the merged store is rebuilt over the
  full backend list, from the new content of \<open>b\<close> and the content the other backends
  had before the call.
\<close>

lemma process_single_backend_frame:
  assumes "Resource.store t = Some m"
    and "\<forall>v\<in>set (backends t). Backend.store v \<noteq> Some m"
    and "distinct (map Backend.store (backends t))"
    and "b \<in> set (backends t)"
    and "process env t [b] s = Some (changed, err, s')"
  shows "(\<exists>ext. trace s' = trace s @ ext \<and> filter is_GetValuesCall ext = [fetchCall b]) \<and>
         (\<forall>v\<in>set (backends t). v \<noteq> b \<longrightarrow>
            store_of s' (Backend.store v) = store_of s (Backend.store v)) \<and>
         ((\<forall>msg n. err \<noteq> Some (BackendError msg n)) \<longrightarrow>
            store_of s' (Some m) =
              foldl (++) Map.empty
                (map (\<lambda>v. if v = b then store_of s' (Backend.store b)
                           else store_of s (Backend.store v)) (backends t)))"
proof -
  from assms(5) obtain r s1 where sv: "setVars env t b s = Some (r, s1)"
    by (auto simp: process_def split: option.splits prod.splits)
  from setVars_ext [OF sv] obtain ks where
    tr1: "trace s1 = trace s @ [retrievingEntry t b, fetchCall b] @ map (warn (Resource.logger t)) ks"
    by blast
  have other: "Backend.store v \<noteq> Backend.store b" if "v \<in> set (backends t)" "v \<noteq> b" for v
    using that assms(3,4) by (auto simp: distinct_map dest: inj_onD)
  have fr1: "store_of s1 (Backend.store v) = store_of s (Backend.store v)"
    if "v \<in> set (backends t)" "v \<noteq> b" for v
  proof (cases "Backend.store v")
    case None
    then show ?thesis by (simp add: store_of_def)
  next
    case (Some a)
    with other [OF that] assms(2) that(1) assms(1)
    have "Some a \<noteq> Backend.store b \<and> Some a \<noteq> Resource.store t" by auto
    with setVars_others [OF sv] have "stores s1 a = stores s a" by blast
    then show ?thesis by (simp add: Some store_of_def)
  qed
  show ?thesis
  proof (cases r)
    case (Some e)
    with sv assms(5) have res: "s' = s1" "err = Some (BackendError (Error (Wrap e ''setVars failed'')) (Backend.Name b))"
      by (simp_all add: process_def)
    have "trace s' = trace s @ ([retrievingEntry t b, fetchCall b] @ map (warn (Resource.logger t)) ks) \<and>
        filter is_GetValuesCall ([retrievingEntry t b, fetchCall b] @ map (warn (Resource.logger t)) ks)
          = [fetchCall b]"
      using tr1 res(1) by (simp add: retrievingEntry_def fetchCall_def)
    then have c1: "\<exists>ext. trace s' = trace s @ ext \<and> filter is_GetValuesCall ext = [fetchCall b]"
      by blast
    from fr1 res c1 show ?thesis by auto
  next
    case None
    with sv assms(5) obtain ch e2 where st: "stageAndSync env t (sources t) False s1 = (ch, e2, s')"
      and er: "err = None \<or> (\<exists>e. err = Some (Failure (Wrap e ''createStageFileAndSync failed'')))"
      by (auto simp: process_def createStageFileAndSync_def split: prod.splits option.splits)
    from stageAndSync_frame [OF st] obtain ext where
      fr2: "stores s' = stores s1" "trace s' = trace s1 @ ext" "\<forall>a\<in>set ext. is_render_call a"
      by blast
    let ?ext = "[retrievingEntry t b, fetchCall b] @ map (warn (Resource.logger t)) ks @ ext"
    have "trace s' = trace s @ ?ext \<and> filter is_GetValuesCall ?ext = [fetchCall b]"
      using tr1 fr2(2) filter_GetValues_render [OF fr2(3)]
      by (simp add: retrievingEntry_def fetchCall_def)
    then have c1: "\<exists>ext. trace s' = trace s @ ext \<and> filter is_GetValuesCall ext = [fetchCall b]"
      by blast
    have c2: "store_of s' (Backend.store v) = store_of s (Backend.store v)"
      if "v \<in> set (backends t)" "v \<noteq> b" for v
      using fr1 [OF that] by (simp add: store_of_cong [OF fr2(1)])
    from sv None have sv': "setVars env t b s = Some (None, s1)" by simp
    from setVars_success [OF assms(1,2) sv']
    have "store_of s1 (Some m) =
        foldl (++) Map.empty (map (\<lambda>v. store_of s1 (Backend.store v)) (backends t))"
      by blast
    then have mg: "store_of s' (Some m) =
        foldl (++) Map.empty (map (\<lambda>v. store_of s' (Backend.store v)) (backends t))"
      by (simp add: store_of_cong [OF fr2(1)])
    have "map (\<lambda>v. store_of s' (Backend.store v)) (backends t) =
        map (\<lambda>v. if v = b then store_of s' (Backend.store b)
                   else store_of s (Backend.store v)) (backends t)"
      by (rule map_cong) (simp_all add: c2)
    with mg have c3: "store_of s' (Some m) =
        foldl (++) Map.empty
          (map (\<lambda>v. if v = b then store_of s' (Backend.store b)
                     else store_of s (Backend.store v)) (backends t))"
      by simp
    show ?thesis
    proof (intro conjI ballI impI)
      show "\<exists>ext. trace s' = trace s @ ext \<and> filter is_GetValuesCall ext = [fetchCall b]"
        by (rule c1)
    next
      fix v assume "v \<in> set (backends t)" "v \<noteq> b"
      then show "store_of s' (Backend.store v) = store_of s (Backend.store v)" by (rule c2)
    next
      show "store_of s' (Some m) =
        foldl (++) Map.empty
          (map (\<lambda>v. if v = b then store_of s' (Backend.store b)
                     else store_of s (Backend.store v)) (backends t))"
        by (rule c3)
    qed
  qed
qed

section \<open>Construction of a resource\<close>

lemma initBackends_spec:
  "initBackends lg bs s = (bs2, s') \<Longrightarrow>
     length bs2 = length bs \<and>
     (\<forall>i<length bs. bs2 ! i =
        (bs ! i)\<lparr>Interval := (if needsUpgrade (bs ! i) then 60 else Interval (bs ! i)),
                  Backend.store := Some (next_addr s + i)\<rparr>) \<and>
     trace s' = trace s @ replicate (length (filter needsUpgrade bs)) (intervalWarning lg) \<and>
     next_addr s' = next_addr s + length bs \<and>
     renderers s' = renderers s \<and>
     (\<forall>a. a < next_addr s \<longrightarrow> stores s' a = stores s a)"
proof (induction bs arbitrary: s bs2 s')
  case Nil
  then show ?case by simp
next
  case (Cons b bs)
  let ?s1 = "snd (alloc_store s)"
  let ?b1 = "b\<lparr>Backend.store := Some (next_addr s)\<rparr>"
  let ?b2 = "if needsUpgrade b then ?b1\<lparr>Interval := 60\<rparr> else ?b1"
  let ?s2 = "if needsUpgrade b then emit (intervalWarning lg) ?s1 else ?s1"
  obtain bs3 s3 where r: "initBackends lg bs ?s2 = (bs3, s3)"
    by (cases "initBackends lg bs ?s2")
  have nu: "(Interval ?b1 \<le> 0 \<and> \<not> Onetime ?b1 \<and> \<not> Watch ?b1) = needsUpgrade b"
    by (auto simp: needsUpgrade_def)
  from Cons.prems r have res: "bs2 = ?b2 # bs3" "s' = s3"
    by (auto simp: alloc_store_def Let_def needsUpgrade_def split: if_splits prod.splits)
  have s2: "next_addr ?s2 = Suc (next_addr s)" "renderers ?s2 = renderers s"
    "trace ?s2 = trace s @ (if needsUpgrade b then [intervalWarning lg] else [])"
    "\<And>a. a < next_addr s \<Longrightarrow> stores ?s2 a = stores s a"
    by (simp_all add: alloc_store_def)
  from Cons.IH [OF r] have ih:
    "length bs3 = length bs"
    "\<forall>i<length bs. bs3 ! i =
        (bs ! i)\<lparr>Interval := (if needsUpgrade (bs ! i) then 60 else Interval (bs ! i)),
                  Backend.store := Some (next_addr ?s2 + i)\<rparr>"
    "trace s3 = trace ?s2 @ replicate (length (filter needsUpgrade bs)) (intervalWarning lg)"
    "next_addr s3 = next_addr ?s2 + length bs"
    "renderers s3 = renderers ?s2"
    "\<forall>a. a < next_addr ?s2 \<longrightarrow> stores s3 a = stores ?s2 a"
    by simp_all
  have c1: "length bs2 = length (b # bs)" using res ih(1) by simp
  have c2: "bs2 ! i =
        ((b # bs) ! i)\<lparr>Interval := (if needsUpgrade ((b # bs) ! i) then 60 else Interval ((b # bs) ! i)),
                  Backend.store := Some (next_addr s + i)\<rparr>" if "i < length (b # bs)" for i
  proof (cases i)
    case 0
    then show ?thesis by (simp add: res)
  next
    case (Suc j)
    with that have "j < length bs" by simp
    with ih(2) have "bs3 ! j =
        (bs ! j)\<lparr>Interval := (if needsUpgrade (bs ! j) then 60 else Interval (bs ! j)),
                  Backend.store := Some (next_addr ?s2 + j)\<rparr>" by blast
    then show ?thesis by (simp add: res Suc s2(1))
  qed
  have c3: "trace s' = trace s @ replicate (length (filter needsUpgrade (b # bs))) (intervalWarning lg)"
    by (simp add: res ih(3) s2(3))
  have c4: "next_addr s' = next_addr s + length (b # bs)"
    by (simp add: res ih(4) s2(1))
  have c5: "renderers s' = renderers s"
    by (simp add: res ih(5) s2(2))
  have c6: "stores s' a = stores s a" if "a < next_addr s" for a
  proof -
    from that have "a < next_addr ?s2" by (simp add: s2(1))
    with ih(6) have "stores s3 a = stores ?s2 a" by blast
    with s2(4) [OF that] show ?thesis by (simp add: res)
  qed
  from c1 c2 c3 c4 c5 c6 show ?case by blast
qed

lemma setLoggers_frame:
  "setLoggers lg ps s = (r, s') \<Longrightarrow>
     trace s' = trace s \<and> stores s' = stores s \<and> next_addr s' = next_addr s"
  by (induction ps arbitrary: s) (auto split: if_splits)

lemma NewResource_Inr:
  assumes "NewResource bs srcs name ex s = (Inr t, s')"
  shows "bs \<noteq> [] \<and>
     (\<exists>s1. setLoggers [(''resource'', name)] srcs s = (None, s1) \<and>
        initBackends [(''resource'', name)] bs (snd (alloc_store s1)) = (backends t, s')) \<and>
     Resource.store t = Some (next_addr s) \<and> sources t = srcs \<and>
     Resource.logger t = [(''resource'', name)] \<and> exec t = ex \<and> \<not> Failed t"
proof -
  from assms have ne: "bs \<noteq> []" by (auto simp: NewResource_def split: if_splits)
  obtain r s1 where sl: "setLoggers [(''resource'', name)] srcs s = (r, s1)"
    by (cases "setLoggers [(''resource'', name)] srcs s")
  with assms ne have r: "r = None"
    by (cases r) (auto simp: NewResource_def Let_def split: prod.splits)
  obtain bs2 s3 where ib: "initBackends [(''resource'', name)] bs (snd (alloc_store s1)) = (bs2, s3)"
    by (cases "initBackends [(''resource'', name)] bs (snd (alloc_store s1))")
  from setLoggers_frame [OF sl] have n: "next_addr s1 = next_addr s" by simp
  from assms ne sl r ib have "t = \<lparr>backends = bs2, Resource.store = Some (next_addr s1), sources = srcs,
        Resource.logger = [(''resource'', name)], exec = ex, Failed = False\<rparr>" "s' = s3"
    by (auto simp: NewResource_def Let_def alloc_store_def split: prod.splits)
  with ne sl r ib n show ?thesis by auto
qed


text \<open>
  What \<^verbatim>\<open>NewResource\<close> guarantees about the resource it returns: there is a backend,
  every backend has a store of its own, and the merged store is none of them.
\<close>

lemma NewResource_wellformed:
  assumes "NewResource bs srcs name ex s = (Inr t, s')"
  shows "backends t \<noteq> [] \<and> Resource.store t = Some (next_addr s) \<and>
         (\<forall>v\<in>set (backends t). Backend.store v \<noteq> None \<and> Backend.store v \<noteq> Some (next_addr s)) \<and>
         distinct (map Backend.store (backends t))"
proof -
  from NewResource_Inr [OF assms] obtain s1 where
    ne: "bs \<noteq> []" and sl: "setLoggers [(''resource'', name)] srcs s = (None, s1)"
    and ib: "initBackends [(''resource'', name)] bs (snd (alloc_store s1)) = (backends t, s')"
    and m: "Resource.store t = Some (next_addr s)" by blast
  from setLoggers_frame [OF sl] have n: "next_addr (snd (alloc_store s1)) = Suc (next_addr s)"
    by (simp add: alloc_store_def)
  from initBackends_spec [OF ib] have len: "length (backends t) = length bs"
    and st: "\<forall>i<length bs. Backend.store (backends t ! i) = Some (Suc (next_addr s) + i)"
    by (simp_all add: n)
  have c1: "backends t \<noteq> []" using len ne by auto
  have c2: "Backend.store v \<noteq> None \<and> Backend.store v \<noteq> Some (next_addr s)"
    if "v \<in> set (backends t)" for v
  proof -
    from that obtain i where "i < length bs" "backends t ! i = v"
      by (auto simp: in_set_conv_nth len)
    with st show ?thesis by auto
  qed
  have c3: "distinct (map Backend.store (backends t))"
    by (auto simp: distinct_conv_nth len st)
  from c1 m c2 c3 show ?thesis by blast
qed

text \<open>
  Claim C8. In the resource \<^verbatim>\<open>NewResource\<close> returns, a backend that came with
  \<^verbatim>\<open>Interval <= 0\<close>, not watching and not one-time has \<^verbatim>\<open>Interval = 60\<close>, every other
  backend has the interval it came with, and the log of the construction is one
  warning for each backend that was upgraded.
\<close>

theorem NewResource_interval_upgrade:
  assumes "NewResource bs srcs name ex s = (Inr t, s')"
  shows "length (backends t) = length bs \<and>
         (\<forall>i<length bs.
            Interval (backends t ! i) =
              (if Interval (bs ! i) \<le> 0 \<and> \<not> Watch (bs ! i) \<and> \<not> Onetime (bs ! i)
               then 60 else Interval (bs ! i)) \<and>
            Watch (backends t ! i) = Watch (bs ! i) \<and>
            Onetime (backends t ! i) = Onetime (bs ! i)) \<and>
         drop (length (trace s)) (trace s') =
           replicate (length (filter needsUpgrade bs)) (intervalWarning [(''resource'', name)])"
proof -
  from NewResource_Inr [OF assms] obtain s1 where
    sl: "setLoggers [(''resource'', name)] srcs s = (None, s1)"
    and ib: "initBackends [(''resource'', name)] bs (snd (alloc_store s1)) = (backends t, s')"
    by blast
  from setLoggers_frame [OF sl] have tr: "trace (snd (alloc_store s1)) = trace s"
    by (simp add: alloc_store_def)
  note sp = initBackends_spec [OF ib]
  from sp have len: "length (backends t) = length bs" by (rule conjunct1)
  from sp have el: "\<forall>i<length bs. backends t ! i =
        (bs ! i)\<lparr>Interval := (if needsUpgrade (bs ! i) then 60 else Interval (bs ! i)),
                  Backend.store := Some (next_addr (snd (alloc_store s1)) + i)\<rparr>"
    by (elim conjE)
  from sp have t': "trace s' = trace s @
      replicate (length (filter needsUpgrade bs)) (intervalWarning [(''resource'', name)])"
    by (simp add: tr)
  show ?thesis
  proof (intro conjI allI impI)
    show "length (backends t) = length bs" by (rule len)
  next
    fix i assume i: "i < length bs"
    with el have e: "backends t ! i =
        (bs ! i)\<lparr>Interval := (if needsUpgrade (bs ! i) then 60 else Interval (bs ! i)),
                  Backend.store := Some (next_addr (snd (alloc_store s1)) + i)\<rparr>" by blast
    show "Interval (backends t ! i) =
              (if Interval (bs ! i) \<le> 0 \<and> \<not> Watch (bs ! i) \<and> \<not> Onetime (bs ! i)
               then 60 else Interval (bs ! i))"
      by (simp add: e needsUpgrade_def)
    show "Watch (backends t ! i) = Watch (bs ! i)" by (simp add: e)
    show "Onetime (backends t ! i) = Onetime (bs ! i)" by (simp add: e)
  next
    show "drop (length (trace s)) (trace s') =
           replicate (length (filter needsUpgrade bs)) (intervalWarning [(''resource'', name)])"
      by (simp add: t')
  qed
qed

theorem NewResource_interval_upgrade_witness:
  "\<exists>t s'. NewResource [backendA\<lparr>Interval := 0\<rparr>, backendB, backendA\<lparr>Interval := 30\<rparr>,
                        backendA\<lparr>Interval := - 5, Onetime := True\<rparr>]
             [0] ''demo'' demoExec demoState = (Inr t, s') \<and>
     map Interval (backends t) = [60, 0, 30, - 5] \<and>
     drop (length (trace demoState)) (trace s') = [intervalWarning [(''resource'', ''demo'')]]"
proof -
  let ?bs = "[backendA\<lparr>Interval := 0\<rparr>, backendB, backendA\<lparr>Interval := 30\<rparr>,
              backendA\<lparr>Interval := - 5, Onetime := True\<rparr>]"
  have "\<exists>t s'. NewResource ?bs [0] ''demo'' demoExec demoState = (Inr t, s')"
    by (simp add: NewResource_def alloc_store_def Let_def demo_defs emit_def)
  then obtain t s' where h: "NewResource ?bs [0] ''demo'' demoExec demoState = (Inr t, s')"
    by blast
  note c = NewResource_interval_upgrade [OF h]
  from c have len: "length (backends t) = 4" by simp
  from c have iv: "\<forall>i<length ?bs.
            Interval (backends t ! i) =
              (if Interval (?bs ! i) \<le> 0 \<and> \<not> Watch (?bs ! i) \<and> \<not> Onetime (?bs ! i)
               then 60 else Interval (?bs ! i))" by blast
  have "Interval (backends t ! 0) = 60" "Interval (backends t ! 1) = 0"
    "Interval (backends t ! 2) = 30" "Interval (backends t ! 3) = - 5"
    using iv [rule_format, of 0] iv [rule_format, of 1] iv [rule_format, of 2]
      iv [rule_format, of 3]
    by (simp_all add: backendA_def backendB_def)
  with len have m: "map Interval (backends t) = [60, 0, 30, - 5]"
    by (auto simp: list_eq_iff_nth_eq nth_Cons' numeral_eq_Suc less_Suc_eq)
  from c have "drop (length (trace demoState)) (trace s') =
      replicate (length (filter needsUpgrade ?bs)) (intervalWarning [(''resource'', ''demo'')])"
    by (elim conjE)
  then have w: "drop (length (trace demoState)) (trace s') = [intervalWarning [(''resource'', ''demo'')]]"
    by (simp add: needsUpgrade_def backendA_def backendB_def)
  show ?thesis
    by (rule exI [of _ t], rule exI [of _ s']) (intro conjI h m w)
qed

lemma closeAll_trace:
  "trace (closeAll vs s) = trace s @ map (\<lambda>v. CloseCall (ReadWatcher v)) vs \<and>
   stores (closeAll vs s) = stores s \<and> renderers (closeAll vs s) = renderers s \<and>
   next_addr (closeAll vs s) = next_addr s"
  by (induction vs arbitrary: s) simp_all

lemma setReapLocks_frame:
  "trace (setReapLocks l ps s) = trace s \<and> stores (setReapLocks l ps s) = stores s \<and>
   next_addr (setReapLocks l ps s) = next_addr s"
  by (induction ps arbitrary: s) simp_all

lemma NewResource_Inl_trace:
  assumes "NewResource bs srcs name ex s = (Inl err, s')"
  shows "trace s' = trace s"
proof (cases "bs = []")
  case True
  with assms show ?thesis by (simp add: NewResource_def)
next
  case False
  obtain r s1 where sl: "setLoggers [(''resource'', name)] srcs s = (r, s1)"
    by (cases "setLoggers [(''resource'', name)] srcs s")
  with assms False have "s' = s1"
    by (cases r) (auto simp: NewResource_def Let_def split: prod.splits)
  with setLoggers_frame [OF sl] show ?thesis by simp
qed

text \<open>
  Claim C10. When \<^verbatim>\<open>ConnectAll\<close> has connected the backends and \<^verbatim>\<open>NewResource\<close>
  then fails, \<^verbatim>\<open>NewResourceFromResourceConfig\<close> returns that error after it has
  closed every backend \<^verbatim>\<open>ConnectAll\<close> returned, in order: the closes are the last
  actions before the return, and the only calls of the construction besides
  \<^verbatim>\<open>ConnectAll\<close> itself.
\<close>

theorem NewResourceFromResourceConfig_failure_closes:
  assumes "ConnectAll env (trace s) (Connectors r) = Inr backendList"
    and "NewResource backendList (Template r) (ResourceConfig.Name r)
           (NewExecutor (Exec r) [(''resource'', ResourceConfig.Name r)])
           (setReapLocks reapLock (Template r) (emit (ConnectAllCall (Connectors r)) s))
         = (Inl err, s2)"
  shows "\<exists>s'. NewResourceFromResourceConfig env reapLock r s = (Inl err, s') \<and>
           trace s' = trace s2 @ map (\<lambda>v. CloseCall (ReadWatcher v)) backendList \<and>
           drop (length (trace s)) (trace s') =
             ConnectAllCall (Connectors r) # map (\<lambda>v. CloseCall (ReadWatcher v)) backendList \<and>
           (\<forall>v\<in>set backendList. CloseCall (ReadWatcher v) \<in> set (drop (length (trace s)) (trace s')))"
proof -
  let ?s' = "closeAll backendList s2"
  have r: "NewResourceFromResourceConfig env reapLock r s = (Inl err, ?s')"
    using assms by (simp add: NewResourceFromResourceConfig_def Let_def)
  have t1: "trace ?s' = trace s2 @ map (\<lambda>v. CloseCall (ReadWatcher v)) backendList"
    by (simp add: closeAll_trace)
  have "trace s2 = trace s @ [ConnectAllCall (Connectors r)]"
    using NewResource_Inl_trace [OF assms(2)] by (simp add: setReapLocks_frame)
  with t1 have t2: "drop (length (trace s)) (trace ?s') =
      ConnectAllCall (Connectors r) # map (\<lambda>v. CloseCall (ReadWatcher v)) backendList"
    by simp
  have t3: "\<forall>v\<in>set backendList. CloseCall (ReadWatcher v) \<in> set (drop (length (trace s)) (trace ?s'))"
    by (simp add: t2)
  from r t1 t2 t3 show ?thesis by blast
qed

theorem NewResourceFromResourceConfig_failure_closes_witness:
  "\<exists>s'. ConnectAll envUp (trace demoStateEmptySrc) (Connectors demoConfig) =
           Inr [backendA\<lparr>Backend.store := None\<rparr>, backendB\<lparr>Backend.store := None\<rparr>] \<and>
     NewResourceFromResourceConfig envUp None demoConfig demoStateEmptySrc = (Inl ErrEmptySrc, s') \<and>
     drop (length (trace demoStateEmptySrc)) (trace s') = [ConnectAllCall 0, CloseCall 1, CloseCall 2]"
proof -
  let ?bl = "[backendA\<lparr>Backend.store := None\<rparr>, backendB\<lparr>Backend.store := None\<rparr>]"
  have h1: "ConnectAll envUp (trace demoStateEmptySrc) (Connectors demoConfig) = Inr ?bl"
    by (simp add: envUp_def)
  have "\<exists>s2. NewResource ?bl (Template demoConfig) (ResourceConfig.Name demoConfig)
           (NewExecutor (Exec demoConfig) [(''resource'', ResourceConfig.Name demoConfig)])
           (setReapLocks None (Template demoConfig)
              (emit (ConnectAllCall (Connectors demoConfig)) demoStateEmptySrc))
         = (Inl ErrEmptySrc, s2)"
    by (simp add: NewResource_def Let_def demo_defs emit_def)
  then obtain s2 where h2: "NewResource ?bl (Template demoConfig) (ResourceConfig.Name demoConfig)
           (NewExecutor (Exec demoConfig) [(''resource'', ResourceConfig.Name demoConfig)])
           (setReapLocks None (Template demoConfig)
              (emit (ConnectAllCall (Connectors demoConfig)) demoStateEmptySrc))
         = (Inl ErrEmptySrc, s2)" by blast
  from NewResourceFromResourceConfig_failure_closes [OF h1 h2] obtain s' where
    r: "NewResourceFromResourceConfig envUp None demoConfig demoStateEmptySrc = (Inl ErrEmptySrc, s')"
    and d: "drop (length (trace demoStateEmptySrc)) (trace s') =
             ConnectAllCall (Connectors demoConfig) # map (\<lambda>v. CloseCall (ReadWatcher v)) ?bl"
    by blast
  from d have d': "drop (length (trace demoStateEmptySrc)) (trace s') =
      [ConnectAllCall 0, CloseCall 1, CloseCall 2]"
    by (simp add: demoConfig_def backendA_def backendB_def)
  show ?thesis
    by (rule exI [of _ s']) (intro conjI h1 r d')
qed

section \<open>What process adds to the trace\<close>

lemma render_is_process_action: "is_render_call a \<Longrightarrow> is_process_action a"
  by (cases a) simp_all

lemma setVars_actions:
  assumes "setVars env t b s = Some (r, s')"
  shows "\<exists>ext. trace s' = trace s @ ext \<and> (\<forall>a\<in>set ext. is_process_action a)"
proof -
  from setVars_ext [OF assms] obtain ks where
    e: "trace s' = trace s @ [retrievingEntry t b, fetchCall b] @ map (warn (Resource.logger t)) ks"
    by blast
  have "\<forall>a\<in>set ([retrievingEntry t b, fetchCall b] @ map (warn (Resource.logger t)) ks).
      is_process_action a"
    by (auto simp: retrievingEntry_def fetchCall_def warn_def)
  with e show ?thesis by blast
qed

lemma setVarsAll_actions:
  "setVarsAll env t bs s = Some (r, s') \<Longrightarrow>
     \<exists>ext. trace s' = trace s @ ext \<and> (\<forall>a\<in>set ext. is_process_action a)"
proof (induction bs arbitrary: s)
  case Nil
  then have "trace s' = trace s @ [] \<and> (\<forall>a\<in>set []. is_process_action a)" by simp
  then show ?case by blast
next
  case (Cons b bs)
  from Cons.prems obtain r1 s1 where s1: "setVars env t b s = Some (r1, s1)"
    by (auto split: option.splits)
  from setVars_actions [OF s1] obtain e1 where
    e1: "trace s1 = trace s @ e1" "\<forall>a\<in>set e1. is_process_action a" by blast
  show ?case
  proof (cases r1)
    case (Some err)
    with Cons.prems s1 have "s' = s1" by simp
    with e1 show ?thesis by blast
  next
    case None
    with Cons.prems s1 have "setVarsAll env t bs s1 = Some (r, s')" by simp
    from Cons.IH [OF this] obtain e2 where
      e2: "trace s' = trace s1 @ e2" "\<forall>a\<in>set e2. is_process_action a" by blast
    have "trace s' = trace s @ (e1 @ e2) \<and> (\<forall>a\<in>set (e1 @ e2). is_process_action a)"
      using e1 e2 by auto
    then show ?thesis by blast
  qed
qed

lemma process_actions:
  assumes "process env t bs s = Some (changed, err, s')"
  shows "\<exists>ext. trace s' = trace s @ ext \<and> (\<forall>a\<in>set ext. is_process_action a)"
proof -
  from assms obtain r s1 where s1: "setVarsAll env t bs s = Some (r, s1)"
    by (auto simp: process_def split: option.splits)
  from setVarsAll_actions [OF s1] obtain e1 where
    e1: "trace s1 = trace s @ e1" "\<forall>a\<in>set e1. is_process_action a" by blast
  show ?thesis
  proof (cases r)
    case (Some e)
    with assms s1 have "s' = s1" by (simp add: process_def)
    with e1 show ?thesis by blast
  next
    case None
    with assms s1 obtain ch e2 where "stageAndSync env t (sources t) False s1 = (ch, e2, s')"
      by (auto simp: process_def createStageFileAndSync_def split: prod.splits option.splits)
    from stageAndSync_frame [OF this] obtain e3 where
      e3: "trace s' = trace s1 @ e3" "\<forall>a\<in>set e3. is_render_call a" by blast
    have "trace s' = trace s @ (e1 @ e3) \<and> (\<forall>a\<in>set (e1 @ e3). is_process_action a)"
      using e1 e3 by (auto intro: render_is_process_action)
    then show ?thesis by blast
  qed
qed

section \<open>The main loop\<close>

text \<open>
  What the case \<^verbatim>\<open>storeClient := <-processChan\<close> leaves, by the outcome of \<^verbatim>\<open>process\<close>:
  the memory \<^verbatim>\<open>process\<close> left, and after its trace the log entry of the error, or the
  call of \<^verbatim>\<open>Reload\<close> with the log entry of its error, or nothing.
\<close>

lemma recvProcess_result:
  assumes "process env (res c) [b] (mem c) = Some (changed, err, s1)"
  shows "recvProcess env b c =
     Some (c\<lparr>mem := s1\<lparr>trace := trace s1 @
        (case err of
           Some e \<Rightarrow> [loopErrorEntry (res c) b e]
         | None \<Rightarrow>
             if changed then
               ReloadCall #
                 (case Reload env (trace s1) (exec (res c)) of
                    None \<Rightarrow> []
                  | Some e \<Rightarrow> [Log ErrorLevel (Resource.logger (res c)) (ErrorValue (Failure e))])
             else [])\<rparr>\<rparr>)"
proof (cases err)
  case (Some e)
  with assms show ?thesis by (simp add: recvProcess_def emit_def)
next
  case None
  show ?thesis
  proof (cases changed)
    case False
    with assms None show ?thesis by (simp add: recvProcess_def)
  next
    case True
    with assms None show ?thesis
      by (cases "Reload env (trace s1) (exec (res c))")
         (simp_all add: recvProcess_def Let_def emit_def)
  qed
qed

lemma step_RecvProcess:
  "enabled (RecvProcess b) c \<Longrightarrow>
     step env (RecvProcess b) c = recvProcess env b (c\<lparr>pendingSends := pendingSends c - 1\<rparr>)"
  by (simp add: step_def)

text \<open>
  Claim C2. When the main select receives a backend from \<^verbatim>\<open>processChan\<close>, it runs
  \<^verbatim>\<open>process\<close> for that backend to its end and only then, and only if \<^verbatim>\<open>process\<close>
  reported a change and no error, calls \<^verbatim>\<open>Reload\<close>, once; \<^verbatim>\<open>process\<close> itself never
  reloads. A failure of \<^verbatim>\<open>Reload\<close> is logged, and in every case the loop is back at
  its select. Each event is handled to its end before the next is received, so a
  \<^verbatim>\<open>Reload\<close> has returned before another can start.
\<close>

theorem recvProcess_reload:
  assumes "enabled (RecvProcess b) c"
    and "process env (res c) [b] (mem c) = Some (changed, err, s1)"
  shows "\<exists>c' tail.
           step env (RecvProcess b) c = Some c' \<and> pc c' = MainSelect \<and> res c' = res c \<and>
           trace (mem c') = trace s1 @ tail \<and>
           (ReloadCall \<in> set tail \<longleftrightarrow> changed \<and> err = None) \<and>
           length (filter (\<lambda>a. a = ReloadCall) tail) \<le> 1 \<and>
           ReloadCall \<notin> set (drop (length (trace (mem c))) (trace s1)) \<and>
           (changed \<and> err = None \<longrightarrow>
              tail = ReloadCall #
                (case Reload env (trace s1) (exec (res c)) of
                   None \<Rightarrow> []
                 | Some e \<Rightarrow> [Log ErrorLevel (Resource.logger (res c)) (ErrorValue (Failure e))]))"
proof -
  let ?c0 = "c\<lparr>pendingSends := pendingSends c - 1\<rparr>"
  let ?r = "Reload env (trace s1) (exec (res c))"
  let ?tail = "case err of
           Some e \<Rightarrow> [loopErrorEntry (res c) b e]
         | None \<Rightarrow>
             if changed then
               ReloadCall #
                 (case ?r of
                    None \<Rightarrow> []
                  | Some e \<Rightarrow> [Log ErrorLevel (Resource.logger (res c)) (ErrorValue (Failure e))])
             else []"
  let ?c' = "?c0\<lparr>mem := s1\<lparr>trace := trace s1 @ ?tail\<rparr>\<rparr>"
  from assms(1) have pc: "pc c = MainSelect" by simp
  from process_actions [OF assms(2)] obtain ext where
    ext: "trace s1 = trace (mem c) @ ext" "\<forall>a\<in>set ext. is_process_action a" by blast
  have nr: "ReloadCall \<notin> set (drop (length (trace (mem c))) (trace s1))"
    using ext by auto
  have r0: "res ?c0 = res c" "mem ?c0 = mem c" by simp_all
  have "recvProcess env b ?c0 = Some ?c'"
    using recvProcess_result [of env ?c0 b changed err s1] assms(2) unfolding r0 by simp
  then have st: "step env (RecvProcess b) c = Some ?c'"
    by (simp only: step_RecvProcess [OF assms(1)])
  have p1: "pc ?c' = MainSelect" "res ?c' = res c" "trace (mem ?c') = trace s1 @ ?tail"
    using pc by simp_all
  have t1: "ReloadCall \<in> set ?tail \<longleftrightarrow> changed \<and> err = None"
    by (cases err; cases changed; cases ?r)
       (simp_all add: loopErrorEntry_def split: error.splits)
  have t2: "length (filter (\<lambda>a. a = ReloadCall) ?tail) \<le> 1"
    by (cases err; cases changed; cases ?r)
       (simp_all add: loopErrorEntry_def split: error.splits)
  have t3: "changed \<and> err = None \<longrightarrow>
              ?tail = ReloadCall #
                (case ?r of
                   None \<Rightarrow> []
                 | Some e \<Rightarrow> [Log ErrorLevel (Resource.logger (res c)) (ErrorValue (Failure e))])"
    by simp
  show ?thesis
    by (rule exI [of _ ?c'], rule exI [of _ ?tail]) (intro conjI st p1 t1 t2 nr t3)
qed

theorem recvProcess_reload_witness:
  "enabled (RecvProcess backendB) demoLoop \<and>
   (\<exists>s1 c'. process envReloadFails (res demoLoop) [backendB] (mem demoLoop) = Some (True, None, s1) \<and>
      step envReloadFails (RecvProcess backendB) demoLoop = Some c' \<and> pc c' = MainSelect \<and>
      trace (mem c') = trace s1 @
        [ReloadCall, Log ErrorLevel [(''resource'', ''demo'')] (ErrorValue (Failure (ErrorNew ''no such process'')))])"
proof -
  have h1: "enabled (RecvProcess backendB) demoLoop"
    by (simp add: demoLoop_def demoResource_def backendB_def)
  have "\<exists>s1. process envReloadFails (res demoLoop) [backendB] (mem demoLoop) = Some (True, None, s1)"
    by (simp add: demoLoop_def envReloadFails_def demo_defs eval_defs)
  then obtain s1 where
    h2: "process envReloadFails (res demoLoop) [backendB] (mem demoLoop) = Some (True, None, s1)"
    by blast
  from recvProcess_reload [OF h1 h2] obtain c' tail where
    c: "step envReloadFails (RecvProcess backendB) demoLoop = Some c'" "pc c' = MainSelect"
      "trace (mem c') = trace s1 @ tail"
      "tail = ReloadCall #
                (case Reload envReloadFails (trace s1) (exec (res demoLoop)) of
                   None \<Rightarrow> []
                 | Some e \<Rightarrow> [Log ErrorLevel (Resource.logger (res demoLoop)) (ErrorValue (Failure e))])"
    by auto
  from c(4) have "tail = [ReloadCall,
      Log ErrorLevel [(''resource'', ''demo'')] (ErrorValue (Failure (ErrorNew ''no such process'')))]"
    by (simp add: envReloadFails_def demoLoop_def demoResource_def)
  with c(3) have t: "trace (mem c') = trace s1 @ [ReloadCall,
      Log ErrorLevel [(''resource'', ''demo'')] (ErrorValue (Failure (ErrorNew ''no such process'')))]"
    by simp
  show ?thesis
    by (rule conjI [OF h1], rule exI [of _ s1], rule exI [of _ c']) (intro conjI h2 c(1) c(2) t)
qed

text \<open>
  With a store behind every backend and the merged store apart from them, neither
  \<^verbatim>\<open>setVars\<close> nor \<^verbatim>\<open>process\<close> for a backend of the resource panics.
\<close>

lemma setVars_total:
  assumes "Resource.store t = Some m"
    and "\<forall>v\<in>set (backends t). Backend.store v \<noteq> None \<and> Backend.store v \<noteq> Some m"
    and "Backend.store b \<noteq> None"
  shows "\<exists>r s'. setVars env t b s = Some (r, s')"
proof -
  from assms(3) obtain a where a: "Backend.store b = Some a" by auto
  let ?s2 = "emit (GetValuesCall (ReadWatcher b) (fetchKeys b)) (emit (retrievingEntry t b) s)"
  show ?thesis
  proof (cases "GetValues env (trace (emit (retrievingEntry t b) s)) (ReadWatcher b) (fetchKeys b)")
    case (Inl e)
    then show ?thesis by (simp add: setVars_def Let_def)
  next
    case (Inr result)
    let ?s4 = "store_upd m Store_Purge (setResult a (Prefix b) result (store_upd a Store_Purge ?s2))"
    from mergeBackends_spec [OF assms(2), of "Resource.logger t" ?s4] obtain s5 where
      "mergeBackends (Resource.logger t) m (backends t) ?s4 = Some s5" by blast
    with Inr a assms(1) show ?thesis by (simp add: setVars_def Let_def)
  qed
qed

lemma process_single_total:
  assumes "Resource.store t = Some m"
    and "\<forall>v\<in>set (backends t). Backend.store v \<noteq> None \<and> Backend.store v \<noteq> Some m"
    and "b \<in> set (backends t)"
  shows "\<exists>changed err s'. process env t [b] s = Some (changed, err, s')"
proof -
  from assms(2,3) have "Backend.store b \<noteq> None" by blast
  from setVars_total [OF assms(1,2) this] obtain r s1 where
    sv: "setVars env t b s = Some (r, s1)" by blast
  show ?thesis
  proof (cases r)
    case (Some e)
    with sv show ?thesis by (auto simp: process_def)
  next
    case None
    obtain ch e2 s2 where "createStageFileAndSync env t s1 = (ch, e2, s2)"
      by (cases "createStageFileAndSync env t s1")
    with sv None show ?thesis by (cases e2) (auto simp: process_def)
  qed
qed

lemma process_fetched_no_BackendError:
  assumes "process env t [b] s = Some (changed, err, s')"
    and "GetValues env (trace s @ [retrievingEntry t b]) (ReadWatcher b) (fetchKeys b) = Inr result"
  shows "\<forall>msg n. err \<noteq> Some (BackendError msg n)"
proof -
  from assms(1) obtain r s1 where sv: "setVars env t b s = Some (r, s1)"
    by (auto simp: process_def split: option.splits prod.splits)
  have "r = None"
  proof (cases r)
    case (Some e)
    with setVars_Some_error [of env t b s e s1] sv assms(2) show ?thesis by auto
  qed simp
  with sv assms(1) show ?thesis
    by (auto simp: process_def split: prod.splits option.splits)
qed

text \<open>
  Claim C3. When the main select receives backend \<open>b\<close> from \<^verbatim>\<open>processChan\<close> (a copy of
  one of the resource's backends, each of which has a store of its own), the handler
  does not panic, and all it fetches is \<open>b\<close>: the one \<^verbatim>\<open>GetValues\<close> call of the event
  is the one for \<open>b\<close>. Afterwards the store of every other backend holds what it held
  before the event, and once the fetch has succeeded the merged store is the merge over
  the full backend list, of the new content of \<open>b\<close> and the content the other backends
  had before the event.
\<close>

theorem recvProcess_single_backend_frame:
  assumes "enabled (RecvProcess b) c"
    and "Resource.store (res c) = Some m"
    and "\<forall>v\<in>set (backends (res c)). Backend.store v \<noteq> None \<and> Backend.store v \<noteq> Some m"
    and "distinct (map Backend.store (backends (res c)))"
  shows "\<exists>c' ext.
           step env (RecvProcess b) c = Some c' \<and> res c' = res c \<and>
           trace (mem c') = trace (mem c) @ ext \<and>
           filter is_GetValuesCall ext = [fetchCall b] \<and>
           (\<forall>v\<in>set (backends (res c)). v \<noteq> b \<longrightarrow>
              store_of (mem c') (Backend.store v) = store_of (mem c) (Backend.store v)) \<and>
           ((\<exists>result. GetValues env (trace (mem c) @ [retrievingEntry (res c) b])
                         (ReadWatcher b) (fetchKeys b) = Inr result) \<longrightarrow>
              store_of (mem c') (Some m) =
                foldl (++) Map.empty
                  (map (\<lambda>v. if v = b then store_of (mem c') (Backend.store b)
                             else store_of (mem c) (Backend.store v)) (backends (res c))))"
proof -
  let ?t = "res c"
  let ?c0 = "c\<lparr>pendingSends := pendingSends c - 1\<rparr>"
  from assms(1) have bin: "b \<in> set (backends ?t)" by simp
  from assms(3) have nm: "\<forall>v\<in>set (backends ?t). Backend.store v \<noteq> Some m" by blast
  from process_single_total [OF assms(2,3) bin] obtain changed err s1 where
    p: "process env ?t [b] (mem c) = Some (changed, err, s1)" by blast
  let ?r = "Reload env (trace s1) (exec ?t)"
  let ?tail = "case err of
           Some e \<Rightarrow> [loopErrorEntry ?t b e]
         | None \<Rightarrow>
             if changed then
               ReloadCall #
                 (case ?r of
                    None \<Rightarrow> []
                  | Some e \<Rightarrow> [Log ErrorLevel (Resource.logger ?t) (ErrorValue (Failure e))])
             else []"
  let ?c' = "?c0\<lparr>mem := s1\<lparr>trace := trace s1 @ ?tail\<rparr>\<rparr>"
  have r0: "res ?c0 = res c" "mem ?c0 = mem c" by simp_all
  have "recvProcess env b ?c0 = Some ?c'"
    using recvProcess_result [of env ?c0 b changed err s1] p unfolding r0 by simp
  then have st: "step env (RecvProcess b) c = Some ?c'"
    by (simp only: step_RecvProcess [OF assms(1)])
  note fr = process_single_backend_frame [OF assms(2) nm assms(4) bin p]
  from fr obtain ext where
    ext: "trace s1 = trace (mem c) @ ext" "filter is_GetValuesCall ext = [fetchCall b]"
    by blast
  have tl: "filter is_GetValuesCall ?tail = []"
    by (cases err; cases changed; cases ?r)
       (simp_all add: loopErrorEntry_def split: error.splits)
  have c1: "res ?c' = res c" by simp
  have c2: "trace (mem ?c') = trace (mem c) @ (ext @ ?tail)"
    using ext(1) by simp
  have c3: "filter is_GetValuesCall (ext @ ?tail) = [fetchCall b]"
    using ext(2) tl by simp
  have so: "store_of (mem ?c') q = store_of s1 q" for q
    by (rule store_of_cong) simp
  from fr have "\<forall>v\<in>set (backends ?t). v \<noteq> b \<longrightarrow>
      store_of s1 (Backend.store v) = store_of (mem c) (Backend.store v)"
    by (elim conjE)
  then have c4: "\<forall>v\<in>set (backends ?t). v \<noteq> b \<longrightarrow>
      store_of (mem ?c') (Backend.store v) = store_of (mem c) (Backend.store v)"
    by (simp only: so)
  have c5: "(\<exists>result. GetValues env (trace (mem c) @ [retrievingEntry ?t b])
                         (ReadWatcher b) (fetchKeys b) = Inr result) \<longrightarrow>
              store_of (mem ?c') (Some m) =
                foldl (++) Map.empty
                  (map (\<lambda>v. if v = b then store_of (mem ?c') (Backend.store b)
                             else store_of (mem c) (Backend.store v)) (backends ?t))"
  proof
    assume "\<exists>result. GetValues env (trace (mem c) @ [retrievingEntry ?t b])
                         (ReadWatcher b) (fetchKeys b) = Inr result"
    then obtain result where "GetValues env (trace (mem c) @ [retrievingEntry ?t b])
                         (ReadWatcher b) (fetchKeys b) = Inr result" by blast
    from process_fetched_no_BackendError [OF p this]
    have nb: "\<forall>msg n. err \<noteq> Some (BackendError msg n)" .
    from fr have "(\<forall>msg n. err \<noteq> Some (BackendError msg n)) \<longrightarrow>
            store_of s1 (Some m) =
              foldl (++) Map.empty
                (map (\<lambda>v. if v = b then store_of s1 (Backend.store b)
                           else store_of (mem c) (Backend.store v)) (backends ?t))"
      by (elim conjE)
    with nb have "store_of s1 (Some m) =
              foldl (++) Map.empty
                (map (\<lambda>v. if v = b then store_of s1 (Backend.store b)
                           else store_of (mem c) (Backend.store v)) (backends ?t))"
      by blast
    then show "store_of (mem ?c') (Some m) =
                foldl (++) Map.empty
                  (map (\<lambda>v. if v = b then store_of (mem ?c') (Backend.store b)
                             else store_of (mem c) (Backend.store v)) (backends ?t))"
      by (simp only: so)
  qed
  show ?thesis
    by (rule exI [of _ ?c'], rule exI [of _ "ext @ ?tail"]) (intro conjI st c1 c2 c3 c4 c5)
qed

theorem recvProcess_single_backend_frame_witness:
  "Resource.store (res demoLoop) = Some 0 \<and>
   Backend.store backendA \<noteq> None \<and> Backend.store backendA \<noteq> Some 0 \<and>
   Backend.store backendB \<noteq> None \<and> Backend.store backendB \<noteq> Some 0 \<and>
   distinct (map Backend.store (backends (res demoLoop))) \<and>
   (\<exists>s1 c'. process envUp demoResource (backends demoResource) demoState = Some (True, None, s1) \<and>
      enabled (RecvProcess backendB) (demoLoop\<lparr>mem := s1\<rparr>) \<and>
      GetValues envUp (trace s1 @ [retrievingEntry demoResource backendB])
        (ReadWatcher backendB) (fetchKeys backendB) = Inr [(''/b/k'', ''v2'')] \<and>
      step envUp (RecvProcess backendB) (demoLoop\<lparr>mem := s1\<rparr>) = Some c' \<and>
      filter is_GetValuesCall (drop (length (trace s1)) (trace (mem c'))) = [fetchCall backendB] \<and>
      store_of s1 (Backend.store backendA) ''/k'' = Some ''v1'' \<and>
      store_of (mem c') (Backend.store backendA) = store_of s1 (Backend.store backendA) \<and>
      store_of (mem c') (Some 0) =
        foldl (++) Map.empty
          [store_of s1 (Backend.store backendA), store_of (mem c') (Backend.store backendB)] \<and>
      store_of (mem c') (Some 0) ''/only'' = Some ''1'' \<and>
      store_of (mem c') (Some 0) ''/k'' = Some ''v2'')"
proof -
  have rs: "res demoLoop = demoResource" by (simp add: demoLoop_def)
  have "\<exists>s1. process envUp demoResource (backends demoResource) demoState = Some (True, None, s1) \<and>
      store_of s1 (Backend.store backendA) ''/k'' = Some ''v1'' \<and>
      (\<exists>c0. step envUp (RecvProcess backendB) (demoLoop\<lparr>mem := s1\<rparr>) = Some c0 \<and>
         store_of (mem c0) (Some 0) ''/only'' = Some ''1'' \<and>
         store_of (mem c0) (Some 0) ''/k'' = Some ''v2'')"
    by (simp add: demo_defs eval_defs step_def recvProcess_def demoLoop_def)
  then obtain s1 c0 where
    p1: "process envUp demoResource (backends demoResource) demoState = Some (True, None, s1)"
    and a1: "store_of s1 (Backend.store backendA) ''/k'' = Some ''v1''"
    and c0: "step envUp (RecvProcess backendB) (demoLoop\<lparr>mem := s1\<rparr>) = Some c0"
      "store_of (mem c0) (Some 0) ''/only'' = Some ''1''"
      "store_of (mem c0) (Some 0) ''/k'' = Some ''v2''"
    by blast
  let ?c = "demoLoop\<lparr>mem := s1\<rparr>"
  have rc: "res ?c = demoResource" "mem ?c = s1" by (simp_all add: demoLoop_def)
  have h1: "enabled (RecvProcess backendB) ?c"
    by (simp add: demoLoop_def demoResource_def backendB_def)
  have h2: "Resource.store (res ?c) = Some 0" by (simp add: rc demoResource_def)
  have h3: "\<forall>v\<in>set (backends (res ?c)). Backend.store v \<noteq> None \<and> Backend.store v \<noteq> Some 0"
    by (simp add: rc demoResource_def backendA_def backendB_def)
  have h4: "distinct (map Backend.store (backends (res ?c)))"
    by (simp add: rc demoResource_def backendA_def backendB_def)
  have g: "GetValues envUp (trace s1 @ [retrievingEntry demoResource backendB])
        (ReadWatcher backendB) (fetchKeys backendB) = Inr [(''/b/k'', ''v2'')]"
    by (simp add: envUp_def backendB_def)
  from recvProcess_single_backend_frame [OF h1 h2 h3 h4, of envUp] obtain c' ext where
    c: "step envUp (RecvProcess backendB) ?c = Some c'"
      "trace (mem c') = trace (mem ?c) @ ext"
      "filter is_GetValuesCall ext = [fetchCall backendB]"
    and fr: "\<forall>v\<in>set (backends (res ?c)). v \<noteq> backendB \<longrightarrow>
              store_of (mem c') (Backend.store v) = store_of (mem ?c) (Backend.store v)"
    and mg: "(\<exists>result. GetValues envUp (trace (mem ?c) @ [retrievingEntry (res ?c) backendB])
                         (ReadWatcher backendB) (fetchKeys backendB) = Inr result) \<longrightarrow>
              store_of (mem c') (Some 0) =
                foldl (++) Map.empty
                  (map (\<lambda>v. if v = backendB then store_of (mem c') (Backend.store backendB)
                             else store_of (mem ?c) (Backend.store v)) (backends (res ?c)))"
    by (elim exE conjE)
  have ne: "backendA \<noteq> backendB" by (simp add: backendA_def backendB_def)
  have bs: "backends demoResource = [backendA, backendB]" by (simp add: demoResource_def)
  from c(2,3) have c1: "filter is_GetValuesCall (drop (length (trace s1)) (trace (mem c'))) =
      [fetchCall backendB]"
    by (simp add: rc)
  from fr have c2: "store_of (mem c') (Backend.store backendA) = store_of s1 (Backend.store backendA)"
    using ne by (simp add: rc bs)
  have "GetValues envUp (trace (mem ?c) @ [retrievingEntry (res ?c) backendB])
                         (ReadWatcher backendB) (fetchKeys backendB) = Inr [(''/b/k'', ''v2'')]"
    using g by (simp only: rc)
  then have "\<exists>result. GetValues envUp (trace (mem ?c) @ [retrievingEntry (res ?c) backendB])
                         (ReadWatcher backendB) (fetchKeys backendB) = Inr result"
    by (rule exI)
  with mg have "store_of (mem c') (Some 0) =
                foldl (++) Map.empty
                  (map (\<lambda>v. if v = backendB then store_of (mem c') (Backend.store backendB)
                             else store_of (mem ?c) (Backend.store v)) (backends (res ?c)))"
    by (rule mp)
  then have c3: "store_of (mem c') (Some 0) =
        foldl (++) Map.empty
          [store_of s1 (Backend.store backendA), store_of (mem c') (Backend.store backendB)]"
    using ne by (simp add: rc bs)
  from c(1) c0(1) have "c0 = c'" by simp
  with c0(2,3) have c4: "store_of (mem c') (Some 0) ''/only'' = Some ''1''"
    "store_of (mem c') (Some 0) ''/k'' = Some ''v2''"
    by simp_all
  have k1: "Resource.store (res demoLoop) = Some 0" by (simp add: rs demoResource_def)
  have k2: "Backend.store backendA \<noteq> None" "Backend.store backendA \<noteq> Some 0"
    "Backend.store backendB \<noteq> None" "Backend.store backendB \<noteq> Some 0"
    by (simp_all add: backendA_def backendB_def)
  have k3: "distinct (map Backend.store (backends (res demoLoop)))"
    by (simp add: rs demoResource_def backendA_def backendB_def)
  show ?thesis
    by (rule conjI [OF k1], intro conjI k2 k3, rule exI [of _ s1], rule exI [of _ c'])
       (intro conjI p1 h1 g c(1) c1 a1 c2 c3 c4)
qed

section \<open>Monitor from its start\<close>

lemma run_append:
  "run env (xs @ ys) c = (case run env xs c of None \<Rightarrow> None | Some c1 \<Rightarrow> run env ys c1)"
  by (induction xs arbitrary: c) (auto split: option.splits)

lemma step_beforeChild:
  assumes "beforeChild c" and "step env e c = Some c'"
  shows "beforeChild c'"
proof (cases e)
  case SelectRetry
  with assms(2) have "enabled SelectRetry c" "selectRetry env c = Some c'"
    by (auto simp: step_def split: if_splits)
  with assms(1) show ?thesis
    by (auto simp: beforeChild_def selectRetry_def split: option.splits prod.splits)
next
  case (SleeperStart i)
  with assms show ?thesis
    by (auto simp: step_def beforeChild_def sleeperStart_def Let_def split: if_splits)
next
  case (SleeperWake i)
  with assms show ?thesis
    by (auto simp: step_def beforeChild_def sleeperWake_def split: if_splits)
next
  case (SleeperSend i)
  with assms show ?thesis
    by (auto simp: step_def beforeChild_def sleeperSend_def split: if_splits)
next
  case StartChild
  with assms show ?thesis
    by (auto simp: step_def beforeChild_def startChild_def Let_def split: if_splits option.splits)
next
  case (WaitReturn failed)
  with assms show ?thesis
    by (auto simp: step_def beforeChild_def waitReturn_def Let_def split: if_splits)
next
  case (RecvProcess b)
  let ?c0 = "c\<lparr>pendingSends := pendingSends c - 1\<rparr>"
  from RecvProcess assms(2) have en: "pc c = MainSelect" "0 < pendingSends c"
    and r: "recvProcess env b ?c0 = Some c'"
    by (auto simp: step_def split: if_splits)
  from r obtain changed err s1 where
    p: "process env (res ?c0) [b] (mem ?c0) = Some (changed, err, s1)"
    by (auto simp: recvProcess_def split: option.splits)
  from recvProcess_result [OF p] r
  have "retryChan c' = retryChan c" "pendingSends c' = pendingSends c - 1"
    "workers c' = workers c" "pc c' = pc c"
    by auto
  with assms(1) en show ?thesis by (auto simp: beforeChild_def)
qed (use assms in \<open>auto simp: step_def beforeChild_def returnFromMonitor_def split: if_splits\<close>)

text \<open>
  Whatever \<^verbatim>\<open>Monitor\<close> has done, \<^verbatim>\<open>retryChan\<close> holds at most its one token and only
  running goroutines stand in a send, and as long as the main goroutine is in the retry
  loop or about to start the child, no \<^verbatim>\<open>StopChild\<close> is deferred and no goroutine of
  the later phases runs.
\<close>

lemma run_beforeChild:
  "beforeChild c \<Longrightarrow> run env es c = Some c' \<Longrightarrow> beforeChild c'"
proof (induction es arbitrary: c)
  case Nil
  then show ?case by simp
next
  case (Cons e es)
  from Cons.prems(2) obtain c1 where s: "step env e c = Some c1" and r: "run env es c1 = Some c'"
    by (auto split: option.splits)
  from Cons.IH [OF step_beforeChild [OF Cons.prems(1) s] r] show ?case .
qed

lemma Monitor_beforeChild:
  assumes "Monitor env t s parentDone es = Some c"
  shows "beforeChild c"
proof -
  have "beforeChild (Monitor_start t s parentDone)"
    by (simp add: beforeChild_def Monitor_start_def)
  from run_beforeChild [OF this] assms show ?thesis by (simp add: Monitor_def)
qed

section \<open>A failed start of the child\<close>

text \<open>
  Once \<^verbatim>\<open>SpawnChild\<close> has failed, every step keeps what \<open>afterSpawnFailure\<close> says and
  the stores, is no receive from \<^verbatim>\<open>processChan\<close> and no send to it, adds at most log
  entries, sleeps and forwarded signals to the trace, and if it is an event of the
  shutdown, there is one of them less left.
\<close>

lemma step_afterSpawnFailure:
  assumes "afterSpawnFailure c" and "step env e c = Some c'"
  shows "afterSpawnFailure c' \<and> stores (mem c') = stores (mem c) \<and>
         (\<forall>b. e \<noteq> RecvProcess b) \<and> e \<noteq> WorkerSend \<and> e \<noteq> Drain \<and>
         (\<exists>ext. trace (mem c') = trace (mem c) @ ext \<and>
                (\<forall>a\<in>set ext. is_idle_action a \<or> (\<exists>sg. a = SignalChildCall sg))) \<and>
         shutdownLeft c' + (if is_shutdown_event e then 1 else 0) \<le> shutdownLeft c"
proof -
  from assms(1) have inv: "Failed (res c)" "ctxDone c" "\<not> stopDeferred c" "pendingSends c = 0"
    "pc c = MainSelect \<or> pc c = WaitWg \<or> pc c = Returned"
    by (simp_all add: afterSpawnFailure_def)
  from assms(2) have en: "enabled e c" and f: "fire env e c = Some c'"
    by (simp_all add: step_def split: if_splits)
  have same: "afterSpawnFailure c' \<and> stores (mem c') = stores (mem c) \<and>
         (\<forall>b. e \<noteq> RecvProcess b) \<and> e \<noteq> WorkerSend \<and> e \<noteq> Drain \<and>
         (\<exists>ext. trace (mem c') = trace (mem c) @ ext \<and>
                (\<forall>a\<in>set ext. is_idle_action a \<or> (\<exists>sg. a = SignalChildCall sg))) \<and>
         shutdownLeft c' + (if is_shutdown_event e then 1 else 0) \<le> shutdownLeft c"
    if "afterSpawnFailure c'" "stores (mem c') = stores (mem c)"
      "\<forall>b. e \<noteq> RecvProcess b" "e \<noteq> WorkerSend" "e \<noteq> Drain"
      "trace (mem c') = trace (mem c) @ ext"
      "\<forall>a\<in>set ext. is_idle_action a \<or> (\<exists>sg. a = SignalChildCall sg)"
      "shutdownLeft c' + (if is_shutdown_event e then 1 else 0) \<le> shutdownLeft c" for ext
  proof -
    from that(6,7) have "\<exists>ext. trace (mem c') = trace (mem c) @ ext \<and>
                (\<forall>a\<in>set ext. is_idle_action a \<or> (\<exists>sg. a = SignalChildCall sg))"
      by (intro exI [of _ ext] conjI)
    with that(1-5,8) show ?thesis by (intro conjI)
  qed
  show ?thesis
  proof (cases e)
    case Cancel
    with f have c': "c' = c\<lparr>ctxDone := True\<rparr>" by simp
    show ?thesis
      by (rule same [of "[]"])
         (use inv Cancel in \<open>simp_all add: c' afterSpawnFailure_def shutdownLeft_def\<close>)
  next
    case SelectCtxDone
    with en inv have pc: "pc c = MainSelect" by auto
    with f SelectCtxDone have c': "c' = c\<lparr>pc := WaitWg\<rparr>" by simp
    show ?thesis
      by (rule same [of "[]"])
         (use inv pc SelectCtxDone in \<open>simp_all add: c' afterSpawnFailure_def shutdownLeft_def\<close>)
  next
    case SelectRetry
    with en inv show ?thesis by auto
  next
    case (SleeperStart i)
    let ?rn = "Int63n env (trace (mem c)) 30"
    from SleeperStart f have c': "c' = sleeperStart env i c" by simp
    show ?thesis
      by (rule same [of "[retryNotice (res c) ?rn, SleepSeconds ?rn]"])
         (use inv SleeperStart in \<open>simp_all add: c' sleeperStart_def Let_def afterSpawnFailure_def
            shutdownLeft_def retryNotice_def\<close>)
  next
    case (SleeperWake i)
    with f have c': "c' = sleeperWake i c" by simp
    show ?thesis
      by (rule same [of "[]"])
         (use inv SleeperWake in \<open>simp_all add: c' sleeperWake_def afterSpawnFailure_def
            shutdownLeft_def\<close>)
  next
    case (SleeperSend i)
    with f have c': "c' = sleeperSend i c" by simp
    show ?thesis
      by (rule same [of "[]"])
         (use inv SleeperSend in \<open>simp_all add: c' sleeperSend_def afterSpawnFailure_def
            shutdownLeft_def\<close>)
  next
    case StartChild
    with en inv show ?thesis by auto
  next
    case (WaitReturn failed)
    with en have w: "watchdog c" by simp
    from WaitReturn f have c': "c' = waitReturn failed c" by simp
    show ?thesis
      by (rule same [of "[]"])
         (use inv w WaitReturn in \<open>simp_all add: c' waitReturn_def Let_def afterSpawnFailure_def
            shutdownLeft_def\<close>)
  next
    case WorkerReturn
    with en have w: "0 < workers c" by simp
    from WorkerReturn f have c': "c' = c\<lparr>workers := workers c - 1\<rparr>" by simp
    show ?thesis
      by (rule same [of "[]"])
         (use inv w WorkerReturn in \<open>simp_all add: c' afterSpawnFailure_def shutdownLeft_def\<close>)
  next
    case (RecvProcess b)
    with en inv show ?thesis by simp
  next
    case (RecvSignal sg)
    with f have c': "c' = c\<lparr>mem := emit (SignalChildCall sg) (mem c)\<rparr>" by simp
    show ?thesis
      by (rule same [of "[SignalChildCall sg]"])
         (use inv RecvSignal in \<open>simp_all add: c' afterSpawnFailure_def shutdownLeft_def\<close>)
  next
    case (RecvErr msg bk)
    with f have c': "c' = c\<lparr>mem := emit (Log ErrorLevel (Resource.logger (res c) @ [(''backend'', bk)])
                          (Text msg)) (mem c)\<rparr>" by simp
    show ?thesis
      by (rule same [of "[Log ErrorLevel (Resource.logger (res c) @ [(''backend'', bk)]) (Text msg)]"])
         (use inv RecvErr in \<open>simp_all add: c' afterSpawnFailure_def shutdownLeft_def\<close>)
  next
    case SelectDone
    with en have pc: "pc c = MainSelect" by simp
    from SelectDone f have c': "c' = returnFromMonitor c" by simp
    show ?thesis
      by (rule same [of "[]"])
         (use inv pc SelectDone in \<open>simp_all add: c' returnFromMonitor_def afterSpawnFailure_def
            shutdownLeft_def\<close>)
  next
    case WgWaitReturn
    with en have pc: "pc c = WaitWg" by simp
    from WgWaitReturn f have c': "c' = returnFromMonitor c" by simp
    show ?thesis
      by (rule same [of "[]"])
         (use inv pc WgWaitReturn in \<open>simp_all add: c' returnFromMonitor_def afterSpawnFailure_def
            shutdownLeft_def\<close>)
  next
    case WorkerSend
    with en inv show ?thesis by simp
  next
    case Drain
    with en inv show ?thesis by simp
  qed
qed

lemma run_afterSpawnFailure:
  "afterSpawnFailure c \<Longrightarrow> run env es c = Some c' \<Longrightarrow>
     afterSpawnFailure c' \<and> stores (mem c') = stores (mem c) \<and>
     (\<forall>b. RecvProcess b \<notin> set es) \<and> WorkerSend \<notin> set es \<and> Drain \<notin> set es \<and>
     (\<exists>ext. trace (mem c') = trace (mem c) @ ext \<and>
            (\<forall>a\<in>set ext. is_idle_action a \<or> (\<exists>sg. a = SignalChildCall sg))) \<and>
     shutdownLeft c' + length (filter is_shutdown_event es) \<le> shutdownLeft c"
proof (induction es arbitrary: c)
  case Nil
  then have "c' = c" by simp
  with Nil.prems(1) show ?case by (intro conjI exI [of _ "[]"]) simp_all
next
  case (Cons e es)
  from Cons.prems(2) obtain c1 where s: "step env e c = Some c1" and r: "run env es c1 = Some c'"
    by (auto split: option.splits)
  from step_afterSpawnFailure [OF Cons.prems(1) s] obtain e1 where
    a: "afterSpawnFailure c1" "stores (mem c1) = stores (mem c)"
      "\<forall>b. e \<noteq> RecvProcess b" "e \<noteq> WorkerSend" "e \<noteq> Drain"
      "trace (mem c1) = trace (mem c) @ e1"
      "\<forall>a\<in>set e1. is_idle_action a \<or> (\<exists>sg. a = SignalChildCall sg)"
      "shutdownLeft c1 + (if is_shutdown_event e then 1 else 0) \<le> shutdownLeft c"
    by (elim conjE exE)
  from Cons.IH [OF a(1) r] obtain e2 where
    b: "afterSpawnFailure c'" "stores (mem c') = stores (mem c1)"
      "\<forall>b. RecvProcess b \<notin> set es" "WorkerSend \<notin> set es" "Drain \<notin> set es"
      "trace (mem c') = trace (mem c1) @ e2"
      "\<forall>a\<in>set e2. is_idle_action a \<or> (\<exists>sg. a = SignalChildCall sg)"
      "shutdownLeft c' + length (filter is_shutdown_event es) \<le> shutdownLeft c1"
    by (elim conjE exE)
  have t: "trace (mem c') = trace (mem c) @ (e1 @ e2)" using a(6) b(6) by simp
  have i: "\<forall>a\<in>set (e1 @ e2). is_idle_action a \<or> (\<exists>sg. a = SignalChildCall sg)"
    using a(7) b(7) by auto
  have x: "\<exists>ext. trace (mem c') = trace (mem c) @ ext \<and>
            (\<forall>a\<in>set ext. is_idle_action a \<or> (\<exists>sg. a = SignalChildCall sg))"
    by (intro exI [of _ "e1 @ e2"] conjI t i)
  have st: "stores (mem c') = stores (mem c)" using a(2) b(2) by simp
  have n1: "\<forall>b. RecvProcess b \<notin> set (e # es)" using a(3) b(3) by auto
  have n2: "WorkerSend \<notin> set (e # es)" using a(4) b(4) by auto
  have n3: "Drain \<notin> set (e # es)" using a(5) b(5) by auto
  have m: "shutdownLeft c' + length (filter is_shutdown_event (e # es)) \<le> shutdownLeft c"
    using a(8) b(8) by (simp split: if_splits)
  show ?case by (intro conjI b(1) st n1 n2 n3 x m)
qed

text \<open>
  With no goroutine standing in a send, those that run can return one after the other,
  and then \<^verbatim>\<open>exec.Wait\<close> can.
\<close>

lemma run_workers_return:
  "workers c = n \<Longrightarrow> pendingSends c = 0 \<Longrightarrow>
     run env (replicate n WorkerReturn) c = Some (c\<lparr>workers := 0\<rparr>)"
proof (induction n arbitrary: c)
  case 0
  then show ?case by simp
next
  case (Suc n)
  let ?c1 = "c\<lparr>workers := workers c - 1\<rparr>"
  from Suc.prems have s: "step env WorkerReturn c = Some ?c1" by (simp add: step_def)
  from Suc.prems have "workers ?c1 = n" "pendingSends ?c1 = 0" by simp_all
  from Suc.IH [OF this] s show ?case by simp
qed

lemma run_goroutines_return:
  assumes "pendingSends c = 0"
  shows "\<exists>c1. run env (replicate (workers c) WorkerReturn @
                         (if watchdog c then [WaitReturn False] else [])) c = Some c1 \<and>
           workers c1 = 0 \<and> \<not> watchdog c1 \<and> pc c1 = pc c \<and> mem c1 = mem c \<and>
           res c1 = res c \<and> stopDeferred c1 = stopDeferred c"
proof -
  let ?c0 = "c\<lparr>workers := 0\<rparr>"
  have r0: "run env (replicate (workers c) WorkerReturn) c = Some ?c0"
    by (rule run_workers_return [OF refl assms])
  show ?thesis
  proof (cases "watchdog c")
    case False
    with r0 show ?thesis by (intro exI [of _ ?c0]) simp
  next
    case True
    let ?c1 = "?c0\<lparr>watchdog := False\<rparr>"
    from True have "step env (WaitReturn False) ?c0 = Some ?c1"
      by (simp add: step_def waitReturn_def)
    with r0 True show ?thesis by (intro exI [of _ ?c1]) (simp add: run_append)
  qed
qed

text \<open>
  From every configuration after a failed \<^verbatim>\<open>SpawnChild\<close> the shutdown can be taken to
  its end, and it ends with \<^verbatim>\<open>Monitor\<close> returned, \<^verbatim>\<open>Failed\<close> set and nothing called.
\<close>

lemma afterSpawnFailure_returns:
  assumes "afterSpawnFailure c"
  shows "\<exists>c3. run env (shutdownSchedule c) c = Some c3 \<and> pc c3 = Returned \<and>
           Failed (res c3) \<and> mem c3 = mem c \<and> length (shutdownSchedule c) = shutdownLeft c"
proof -
  from assms have inv: "Failed (res c)" "ctxDone c" "\<not> stopDeferred c" "pendingSends c = 0"
    "pc c = MainSelect \<or> pc c = WaitWg \<or> pc c = Returned"
    by (simp_all add: afterSpawnFailure_def)
  have len: "length (shutdownSchedule c) = shutdownLeft c"
    using inv(5) by (auto simp: shutdownSchedule_def shutdownLeft_def)
  let ?ws = "\<lambda>c. replicate (workers c) WorkerReturn @ (if watchdog c then [WaitReturn False] else [])"
  have fin: "\<exists>c3. run env (?ws d @ [WgWaitReturn]) d = Some c3 \<and> pc c3 = Returned \<and>
           Failed (res c3) \<and> mem c3 = mem c"
    if d: "pc d = WaitWg" "pendingSends d = 0" "mem d = mem c" "res d = res c"
      "stopDeferred d = stopDeferred c" for d
  proof -
    from run_goroutines_return [OF d(2), of env] obtain c1 where
      c1: "run env (?ws d) d = Some c1" "workers c1 = 0" "\<not> watchdog c1" "pc c1 = pc d"
        "mem c1 = mem d" "res c1 = res d" "stopDeferred c1 = stopDeferred d"
      by (elim exE conjE)
    have s: "step env WgWaitReturn c1 = Some (returnFromMonitor c1)"
      using c1(2,3,4) d(1) by (simp add: step_def wg_def)
    have "run env (?ws d @ [WgWaitReturn]) d =
        (case run env (?ws d) d of None \<Rightarrow> None | Some c1 \<Rightarrow> run env [WgWaitReturn] c1)"
      by (rule run_append)
    then have r: "run env (?ws d @ [WgWaitReturn]) d = Some (returnFromMonitor c1)"
      by (simp only: c1(1) option.case run.simps s)
    have q: "pc (returnFromMonitor c1) = Returned" "Failed (res (returnFromMonitor c1))"
      "mem (returnFromMonitor c1) = mem c"
      using c1(5,6,7) d(3,4,5) inv(1,3) by (simp_all add: returnFromMonitor_def)
    show ?thesis by (rule exI [of _ "returnFromMonitor c1"]) (intro conjI r q)
  qed
  from inv(5) consider "pc c = MainSelect" | "pc c = WaitWg" | "pc c = Returned" by blast
  then have "\<exists>c3. run env (shutdownSchedule c) c = Some c3 \<and> pc c3 = Returned \<and>
           Failed (res c3) \<and> mem c3 = mem c"
  proof cases
    case 1
    let ?d = "c\<lparr>pc := WaitWg\<rparr>"
    have s: "step env SelectCtxDone c = Some ?d" using 1 inv(2) by (simp add: step_def)
    have sch: "shutdownSchedule c = SelectCtxDone # (?ws ?d @ [WgWaitReturn])"
      using 1 by (simp add: shutdownSchedule_def)
    from fin [of ?d] inv(4) obtain c3 where
      "run env (?ws ?d @ [WgWaitReturn]) ?d = Some c3" "pc c3 = Returned"
      "Failed (res c3)" "mem c3 = mem c"
      by auto
    moreover from this(1) s have "run env (shutdownSchedule c) c = Some c3"
      by (simp only: sch run.simps option.case)
    ultimately show ?thesis by blast
  next
    case 2
    have sch: "shutdownSchedule c = ?ws c @ [WgWaitReturn]"
      using 2 by (simp add: shutdownSchedule_def)
    from fin [of c] 2 inv(4) show ?thesis by (simp only: sch)
  next
    case 3
    have sch: "shutdownSchedule c = ?ws c"
      using 3 by (simp add: shutdownSchedule_def)
    from run_goroutines_return [OF inv(4), of env] obtain c1 where
      c1: "run env (?ws c) c = Some c1" "pc c1 = pc c" "mem c1 = mem c" "res c1 = res c"
      by (elim exE conjE)
    have "run env (shutdownSchedule c) c = Some c1" by (simp only: sch c1(1))
    moreover have "pc c1 = Returned" "Failed (res c1)" "mem c1 = mem c"
      using c1(2,3,4) 3 inv(1) by simp_all
    ultimately show ?thesis by blast
  qed
  with len show ?thesis by blast
qed

text \<open>
  Claim C7. Let \<^verbatim>\<open>Monitor\<close> have come through the retry loop, so that it is about to
  start the child, and let \<^verbatim>\<open>SpawnChild\<close> fail. Then \<^verbatim>\<open>Monitor\<close> logs the error, sets
  \<^verbatim>\<open>Failed\<close>, cancels the context and defers no \<^verbatim>\<open>StopChild\<close>; it goes on to the main
  select. Under every schedule from there: \<^verbatim>\<open>Failed\<close> stays set and the context
  cancelled; no backend is received from \<^verbatim>\<open>processChan\<close> and none is sent, so nothing
  is fetched, rendered or reloaded: the stores stay as they are and the trace grows by
  log entries, sleeps and forwarded signals only; whenever the main goroutine stands at
  its select the \<^verbatim>\<open>ctx.Done()\<close> case is ready; the schedule holds no more events of
  the shutdown than there are goroutines to return and steps of the main goroutine to
  take; and the events of the shutdown that are left can be taken one after the other,
  after which \<^verbatim>\<open>Monitor\<close> has returned with \<^verbatim>\<open>Failed\<close> set, having called nothing
  further.
\<close>

theorem spawn_failure_shutdown:
  assumes "Monitor env t s parentDone es0 = Some c"
    and "pc c = SpawnPhase"
    and "SpawnChild env (trace (mem c)) (exec (res c)) = Some e"
  shows "\<exists>c'.
           step env StartChild c = Some c' \<and>
           Failed (res c') \<and> ctxDone c' \<and> \<not> stopDeferred c' \<and> pc c' = MainSelect \<and>
           trace (mem c') = trace (mem c) @
             [SpawnChildCall, Log ErrorLevel (Resource.logger (res c)) (ErrorValue (Failure e))] \<and>
           stores (mem c') = stores (mem c) \<and>
           (\<forall>es c2. run env es c' = Some c2 \<longrightarrow>
              Failed (res c2) \<and> ctxDone c2 \<and> \<not> stopDeferred c2 \<and>
              (\<forall>b. RecvProcess b \<notin> set es \<and> \<not> enabled (RecvProcess b) c2) \<and>
              WorkerSend \<notin> set es \<and> \<not> enabled WorkerSend c2 \<and>
              stores (mem c2) = stores (mem c') \<and>
              (\<forall>a\<in>set (drop (length (trace (mem c'))) (trace (mem c2))).
                 is_idle_action a \<or> (\<exists>sg. a = SignalChildCall sg)) \<and>
              (pc c2 = MainSelect \<longrightarrow> enabled SelectCtxDone c2) \<and>
              length (filter is_shutdown_event es) + length (shutdownSchedule c2)
                \<le> countWorkers (backends (res c)) + 3 \<and>
              (\<exists>c3. run env (shutdownSchedule c2) c2 = Some c3 \<and> pc c3 = Returned \<and>
                    Failed (res c3) \<and> mem c3 = mem c2))"
proof -
  from Monitor_beforeChild [OF assms(1)] assms(2)
  have bc: "\<not> stopDeferred c" "pendingSends c = 0"
    by (simp_all add: beforeChild_def)
  let ?s = "emit (Log ErrorLevel (Resource.logger (res c)) (ErrorValue (Failure e))) (emit SpawnChildCall (mem c))"
  let ?c' = "c\<lparr>mem := ?s, res := (res c)\<lparr>Failed := True\<rparr>, ctxDone := True,
      watchdog := True, workers := countWorkers (backends (res c)), pc := MainSelect\<rparr>"
  have st: "step env StartChild c = Some ?c'"
    using assms(2,3) by (simp add: step_def startChild_def Let_def)
  have p: "Failed (res ?c')" "ctxDone ?c'" "\<not> stopDeferred ?c'" "pc ?c' = MainSelect"
    "trace (mem ?c') = trace (mem c) @
             [SpawnChildCall, Log ErrorLevel (Resource.logger (res c)) (ErrorValue (Failure e))]"
    "stores (mem ?c') = stores (mem c)"
    using bc(1) by simp_all
  have i0: "afterSpawnFailure ?c'"
    using bc by (simp add: afterSpawnFailure_def)
  have l0: "shutdownLeft ?c' = countWorkers (backends (res c)) + 3"
    by (simp add: shutdownLeft_def)
  have al: "\<forall>es c2. run env es ?c' = Some c2 \<longrightarrow>
              Failed (res c2) \<and> ctxDone c2 \<and> \<not> stopDeferred c2 \<and>
              (\<forall>b. RecvProcess b \<notin> set es \<and> \<not> enabled (RecvProcess b) c2) \<and>
              WorkerSend \<notin> set es \<and> \<not> enabled WorkerSend c2 \<and>
              stores (mem c2) = stores (mem ?c') \<and>
              (\<forall>a\<in>set (drop (length (trace (mem ?c'))) (trace (mem c2))).
                 is_idle_action a \<or> (\<exists>sg. a = SignalChildCall sg)) \<and>
              (pc c2 = MainSelect \<longrightarrow> enabled SelectCtxDone c2) \<and>
              length (filter is_shutdown_event es) + length (shutdownSchedule c2)
                \<le> countWorkers (backends (res c)) + 3 \<and>
              (\<exists>c3. run env (shutdownSchedule c2) c2 = Some c3 \<and> pc c3 = Returned \<and>
                    Failed (res c3) \<and> mem c3 = mem c2)"
  proof (intro allI impI)
    fix es c2
    assume "run env es ?c' = Some c2"
    from run_afterSpawnFailure [OF i0 this] obtain ext where
      a: "afterSpawnFailure c2" "stores (mem c2) = stores (mem ?c')"
        "\<forall>b. RecvProcess b \<notin> set es" "WorkerSend \<notin> set es"
        "trace (mem c2) = trace (mem ?c') @ ext"
        "\<forall>a\<in>set ext. is_idle_action a \<or> (\<exists>sg. a = SignalChildCall sg)"
        "shutdownLeft c2 + length (filter is_shutdown_event es) \<le> shutdownLeft ?c'"
      by (elim conjE exE)
    from a(1) have inv: "Failed (res c2)" "ctxDone c2" "\<not> stopDeferred c2" "pendingSends c2 = 0"
      by (simp_all add: afterSpawnFailure_def)
    from afterSpawnFailure_returns [OF a(1), of env] obtain c3 where
      c3: "run env (shutdownSchedule c2) c2 = Some c3" "pc c3 = Returned"
        "Failed (res c3)" "mem c3 = mem c2"
      and len: "length (shutdownSchedule c2) = shutdownLeft c2"
      by (elim conjE exE)
    have g1: "\<forall>b. RecvProcess b \<notin> set es \<and> \<not> enabled (RecvProcess b) c2"
      using a(3) inv(4) by simp
    have g2: "\<not> enabled WorkerSend c2" using inv(2) by simp
    have g3: "\<forall>a\<in>set (drop (length (trace (mem ?c'))) (trace (mem c2))).
                 is_idle_action a \<or> (\<exists>sg. a = SignalChildCall sg)"
      using a(6) by (simp only: a(5) append_eq_conv_conj [THEN iffD1] drop_append) simp
    have g4: "pc c2 = MainSelect \<longrightarrow> enabled SelectCtxDone c2" using inv(2) by simp
    have g5: "length (filter is_shutdown_event es) + length (shutdownSchedule c2)
                \<le> countWorkers (backends (res c)) + 3"
      using a(7) len l0 by simp
    have g6: "\<exists>c3. run env (shutdownSchedule c2) c2 = Some c3 \<and> pc c3 = Returned \<and>
                    Failed (res c3) \<and> mem c3 = mem c2"
      by (rule exI [of _ c3]) (intro conjI c3)
    show "Failed (res c2) \<and> ctxDone c2 \<and> \<not> stopDeferred c2 \<and>
              (\<forall>b. RecvProcess b \<notin> set es \<and> \<not> enabled (RecvProcess b) c2) \<and>
              WorkerSend \<notin> set es \<and> \<not> enabled WorkerSend c2 \<and>
              stores (mem c2) = stores (mem ?c') \<and>
              (\<forall>a\<in>set (drop (length (trace (mem ?c'))) (trace (mem c2))).
                 is_idle_action a \<or> (\<exists>sg. a = SignalChildCall sg)) \<and>
              (pc c2 = MainSelect \<longrightarrow> enabled SelectCtxDone c2) \<and>
              length (filter is_shutdown_event es) + length (shutdownSchedule c2)
                \<le> countWorkers (backends (res c)) + 3 \<and>
              (\<exists>c3. run env (shutdownSchedule c2) c2 = Some c3 \<and> pc c3 = Returned \<and>
                    Failed (res c3) \<and> mem c3 = mem c2)"
      by (intro conjI inv(1,2,3) g1 a(4) g2 a(2) g3 g4 g5 g6)
  qed
  show ?thesis
    by (rule exI [of _ ?c']) (intro conjI st p al)
qed

theorem spawn_failure_shutdown_witness:
  "\<exists>c c' c2 c3.
      Monitor envSpawnFails demoResource demoState False [SelectRetry] = Some c \<and>
      pc c = SpawnPhase \<and>
      SpawnChild envSpawnFails (trace (mem c)) (exec (res c)) = Some (ErrorNew ''exec: not found'') \<and>
      step envSpawnFails StartChild c = Some c' \<and>
      Failed (res c') \<and> ctxDone c' \<and> \<not> stopDeferred c' \<and> workers c' = 2 \<and>
      run envSpawnFails [RecvSignal 1, SelectCtxDone, WorkerReturn] c' = Some c2 \<and>
      \<not> enabled (RecvProcess backendB) c2 \<and> \<not> enabled WorkerSend c2 \<and>
      stores (mem c2) = stores (mem c) \<and>
      shutdownSchedule c2 = [WorkerReturn, WaitReturn False, WgWaitReturn] \<and>
      run envSpawnFails (shutdownSchedule c2) c2 = Some c3 \<and>
      pc c3 = Returned \<and> Failed (res c3) \<and>
      drop (length (trace (mem c))) (trace (mem c3)) =
        [SpawnChildCall,
         Log ErrorLevel [(''resource'', ''demo'')] (ErrorValue (Failure (ErrorNew ''exec: not found''))),
         SignalChildCall 1]"
proof -
  let ?e = "ErrorNew ''exec: not found''"
  have "\<exists>c. Monitor envSpawnFails demoResource demoState False [SelectRetry] = Some c \<and>
      pc c = SpawnPhase \<and> res c = demoResource \<and> \<not> watchdog c"
    by (simp add: Monitor_def Monitor_start_def step_def selectRetry_def envSpawnFails_def
        demo_defs eval_defs)
  then obtain c where
    h1: "Monitor envSpawnFails demoResource demoState False [SelectRetry] = Some c"
    and h2: "pc c = SpawnPhase" and rc: "res c = demoResource" and wd: "\<not> watchdog c"
    by blast
  have h3: "SpawnChild envSpawnFails (trace (mem c)) (exec (res c)) = Some ?e"
    by (simp add: envSpawnFails_def)
  from spawn_failure_shutdown [OF h1 h2 h3] obtain c' where
    c: "step envSpawnFails StartChild c = Some c'" "Failed (res c')" "ctxDone c'"
      "\<not> stopDeferred c'" "pc c' = MainSelect"
      "trace (mem c') = trace (mem c) @
         [SpawnChildCall, Log ErrorLevel (Resource.logger (res c)) (ErrorValue (Failure ?e))]"
      "stores (mem c') = stores (mem c)"
    and al: "\<forall>es c2. run envSpawnFails es c' = Some c2 \<longrightarrow>
              Failed (res c2) \<and> ctxDone c2 \<and> \<not> stopDeferred c2 \<and>
              (\<forall>b. RecvProcess b \<notin> set es \<and> \<not> enabled (RecvProcess b) c2) \<and>
              WorkerSend \<notin> set es \<and> \<not> enabled WorkerSend c2 \<and>
              stores (mem c2) = stores (mem c') \<and>
              (\<forall>a\<in>set (drop (length (trace (mem c'))) (trace (mem c2))).
                 is_idle_action a \<or> (\<exists>sg. a = SignalChildCall sg)) \<and>
              (pc c2 = MainSelect \<longrightarrow> enabled SelectCtxDone c2) \<and>
              length (filter is_shutdown_event es) + length (shutdownSchedule c2)
                \<le> countWorkers (backends (res c)) + 3 \<and>
              (\<exists>c3. run envSpawnFails (shutdownSchedule c2) c2 = Some c3 \<and> pc c3 = Returned \<and>
                    Failed (res c3) \<and> mem c3 = mem c2)"
    by (elim exE conjE)
  from c(1) h2 have c': "c' = startChild envSpawnFails c" by (simp add: step_def)
  have sp: "SpawnChild envSpawnFails tr ex = Some ?e" for tr ex
    by (simp add: envSpawnFails_def)
  have w: "workers c' = 2" "watchdog c'"
    by (simp_all add: c' startChild_def Let_def sp rc countWorkers_def demoResource_def
        backendA_def backendB_def)
  have ps: "pendingSends c' < workers c'"
    using Monitor_beforeChild [OF h1] h2
    by (simp add: c' startChild_def Let_def sp beforeChild_def rc countWorkers_def
        demoResource_def backendA_def backendB_def)
  let ?c2 = "c'\<lparr>mem := emit (SignalChildCall 1) (mem c'), pc := WaitWg, workers := workers c' - 1\<rparr>"
  have s1: "step envSpawnFails (RecvSignal 1) c' = Some (c'\<lparr>mem := emit (SignalChildCall 1) (mem c')\<rparr>)"
    using c(5) by (simp add: step_def)
  have s2: "step envSpawnFails SelectCtxDone (c'\<lparr>mem := emit (SignalChildCall 1) (mem c')\<rparr>) =
      Some (c'\<lparr>mem := emit (SignalChildCall 1) (mem c'), pc := WaitWg\<rparr>)"
    using c(3,5) by (simp add: step_def)
  have s3: "step envSpawnFails WorkerReturn (c'\<lparr>mem := emit (SignalChildCall 1) (mem c'), pc := WaitWg\<rparr>) =
      Some ?c2"
    using ps by (simp add: step_def)
  have r: "run envSpawnFails [RecvSignal 1, SelectCtxDone, WorkerReturn] c' = Some ?c2"
    by (simp only: run.simps s1 s2 s3 option.case)
  from al r obtain c3 where
    d: "\<not> enabled (RecvProcess backendB) ?c2" "\<not> enabled WorkerSend ?c2"
      "stores (mem ?c2) = stores (mem c')"
      "run envSpawnFails (shutdownSchedule ?c2) ?c2 = Some c3" "pc c3 = Returned"
      "Failed (res c3)" "mem c3 = mem ?c2"
    by blast
  have st: "stores (mem ?c2) = stores (mem c)" using d(3) c(7) by simp
  have sch: "shutdownSchedule ?c2 = [WorkerReturn, WaitReturn False, WgWaitReturn]"
    using w by (simp add: shutdownSchedule_def)
  have t: "drop (length (trace (mem c))) (trace (mem c3)) =
        [SpawnChildCall,
         Log ErrorLevel [(''resource'', ''demo'')] (ErrorValue (Failure ?e)),
         SignalChildCall 1]"
    by (simp add: d(7) c(6) rc demoResource_def)
  show ?thesis
    by (rule exI [of _ c], rule exI [of _ c'], rule exI [of _ ?c2], rule exI [of _ c3])
       (intro conjI h1 h2 h3 c(1) c(2) c(3) c(4) w(1) r d(1) d(2) st sch d(4) d(5) d(6) t)
qed

section \<open>The retry loop\<close>

lemma selectRetry_matches_process:
  assumes "enabled SelectRetry c"
    and "process env (res c) (backends (res c)) (mem c) = Some (ch, e, s2)"
  shows "\<exists>c2. step env SelectRetry c = Some c2 \<and> stores (mem c2) = stores s2 \<and>
           prefix (trace s2) (trace (mem c2)) \<and> res c2 = res c"
  using assms by (cases e) (auto simp: step_def selectRetry_def)

text \<open>
  Claim C4. In the retry loop, with the token in \<^verbatim>\<open>retryChan\<close> and the context live, a
  failed \<^verbatim>\<open>process\<close> over all backends is logged and followed by a sleep of the
  number of seconds drawn with \<^verbatim>\<open>rand.Int63n(30)\<close>, which is in \<open>[0, 30)\<close>; the retry
  cannot be taken before the sleep is over and the token sent. Then the loop is where
  it was: the token is back, the context live, the resource unchanged, and the next
  attempt is \<^verbatim>\<open>process\<close> over all backends again. Nothing counts the attempts, so this
  repeats for as long as \<^verbatim>\<open>process\<close> fails.
\<close>

theorem retry_after_delay:
  assumes "pc c = RetrySelect" and "retryChan c = 1" and "\<not> ctxDone c"
    and "process env (res c) (backends (res c)) (mem c) = Some (changed, Some err, s1)"
    and "\<forall>tr. 0 \<le> Int63n env tr 30 \<and> Int63n env tr 30 < 30"
  shows "\<exists>c' rn.
           run env (retryRound c) c = Some c' \<and>
           rn = Int63n env (trace s1 @ [retryErrorEntry (res c) err]) 30 \<and>
           0 \<le> rn \<and> rn < 30 \<and>
           trace (mem c') = trace s1 @
             [retryErrorEntry (res c) err, retryNotice (res c) rn, SleepSeconds rn] \<and>
           stores (mem c') = stores s1 \<and>
           (\<forall>n\<in>{1, 2, 3}. \<exists>c1. run env (take n (retryRound c)) c = Some c1 \<and>
                                  \<not> enabled SelectRetry c1) \<and>
           res c' = res c \<and> pc c' = RetrySelect \<and> retryChan c' = 1 \<and> \<not> ctxDone c' \<and>
           enabled SelectRetry c' \<and>
           (\<forall>ch e s2. process env (res c) (backends (res c)) (mem c') = Some (ch, e, s2) \<longrightarrow>
              (\<exists>c2. step env SelectRetry c' = Some c2 \<and> stores (mem c2) = stores s2 \<and>
                     prefix (trace s2) (trace (mem c2))))"
proof -
  let ?i = "length (sleepers c)"
  let ?m1 = "emit (retryErrorEntry (res c) err) s1"
  let ?c1 = "c\<lparr>mem := ?m1, retryChan := 0, sleepers := sleepers c @ [Started]\<rparr>"
  let ?rn = "Int63n env (trace ?m1) 30"
  let ?m2 = "emit (SleepSeconds ?rn) (emit (retryNotice (res c) ?rn) ?m1)"
  let ?c2 = "c\<lparr>mem := ?m2, retryChan := 0, sleepers := sleepers c @ [Sleeping ?rn]\<rparr>"
  let ?c3 = "c\<lparr>mem := ?m2, retryChan := 0, sleepers := sleepers c @ [Sending]\<rparr>"
  let ?c4 = "c\<lparr>mem := ?m2, retryChan := 1, sleepers := sleepers c @ [Exited]\<rparr>"
  have s1: "step env SelectRetry c = Some ?c1"
    using assms(1,2,4) by (simp add: step_def selectRetry_def)
  have s2: "step env (SleeperStart ?i) ?c1 = Some ?c2"
    by (simp add: step_def sleeperStart_def Let_def)
  have s3: "step env (SleeperWake ?i) ?c2 = Some ?c3"
    using assms(3) by (simp add: step_def sleeperWake_def)
  have s4: "step env (SleeperSend ?i) ?c3 = Some ?c4"
    by (simp add: step_def sleeperSend_def)
  have r: "run env (retryRound c) c = Some ?c4"
    by (simp only: retryRound_def run.simps s1 s2 s3 s4 option.case)
  have rn: "?rn = Int63n env (trace s1 @ [retryErrorEntry (res c) err]) 30" "0 \<le> ?rn" "?rn < 30"
    using assms(5) by simp_all
  have tr: "trace (mem ?c4) = trace s1 @
      [retryErrorEntry (res c) err, retryNotice (res c) ?rn, SleepSeconds ?rn]"
    by simp
  have st: "stores (mem ?c4) = stores s1" by simp
  have ne: "\<forall>n\<in>{1, 2, 3}. \<exists>c1. run env (take n (retryRound c)) c = Some c1 \<and>
                                  \<not> enabled SelectRetry c1"
  proof -
    have tk: "take 1 (retryRound c) = [SelectRetry]"
      "take 2 (retryRound c) = [SelectRetry, SleeperStart ?i]"
      "take 3 (retryRound c) = [SelectRetry, SleeperStart ?i, SleeperWake ?i]"
      by (simp_all add: retryRound_def numeral_2_eq_2 numeral_3_eq_3)
    have "run env (take 1 (retryRound c)) c = Some ?c1"
      by (simp only: tk run.simps s1 option.case)
    moreover have "\<not> enabled SelectRetry ?c1" by simp
    moreover have "run env (take 2 (retryRound c)) c = Some ?c2"
      by (simp only: tk run.simps s1 s2 option.case)
    moreover have "\<not> enabled SelectRetry ?c2" by simp
    moreover have "run env (take 3 (retryRound c)) c = Some ?c3"
      by (simp only: tk run.simps s1 s2 s3 option.case)
    moreover have "\<not> enabled SelectRetry ?c3" by simp
    ultimately show ?thesis by blast
  qed
  have rest: "res ?c4 = res c" "pc ?c4 = RetrySelect" "retryChan ?c4 = 1" "\<not> ctxDone ?c4"
    "enabled SelectRetry ?c4"
    using assms(1,3) by simp_all
  have nx: "\<forall>ch e s2. process env (res c) (backends (res c)) (mem ?c4) = Some (ch, e, s2) \<longrightarrow>
              (\<exists>c2. step env SelectRetry ?c4 = Some c2 \<and> stores (mem c2) = stores s2 \<and>
                     prefix (trace s2) (trace (mem c2)))"
  proof (intro allI impI)
    fix ch e s2
    assume p: "process env (res c) (backends (res c)) (mem ?c4) = Some (ch, e, s2)"
    then have "process env (res ?c4) (backends (res ?c4)) (mem ?c4) = Some (ch, e, s2)" by simp
    from selectRetry_matches_process [OF rest(5) this]
    show "\<exists>c2. step env SelectRetry ?c4 = Some c2 \<and> stores (mem c2) = stores s2 \<and>
                     prefix (trace s2) (trace (mem c2))" by blast
  qed
  show ?thesis
    by (rule exI [of _ ?c4], rule exI [of _ ?rn]) (intro conjI r rn tr st ne rest nx)
qed

lemma not_in_set_update: "x \<notin> set xs \<Longrightarrow> x \<noteq> y \<Longrightarrow> x \<notin> set (xs[i := y])"
  using set_update_subset_insert [of xs i y] by auto

lemma step_cancelledWait:
  assumes "cancelledWait c" and "step env e c = Some c'"
  shows "cancelledWait c' \<and> stores (mem c') = stores (mem c) \<and>
         (\<exists>ext. trace (mem c') = trace (mem c) @ ext \<and> (\<forall>a\<in>set ext. is_idle_action a))"
proof -
  from assms(1) have inv: "pc c = RetrySelect \<or> pc c = Returned" "retryChan c = 0"
    "Sending \<notin> set (sleepers c)" "ctxDone c" "\<not> stopDeferred c"
    by (simp_all add: cancelledWait_def)
  have same: "cancelledWait c' \<and> stores (mem c') = stores (mem c) \<and>
         (\<exists>ext. trace (mem c') = trace (mem c) @ ext \<and> (\<forall>a\<in>set ext. is_idle_action a))"
    if "cancelledWait c'" "mem c' = mem c"
  proof -
    from that(2) have "trace (mem c') = trace (mem c) @ [] \<and> (\<forall>a\<in>set []. is_idle_action a)"
      by simp
    with that show ?thesis by (metis)
  qed
  show ?thesis
  proof (cases e)
    case Cancel
    with assms(2) have "c' = c\<lparr>ctxDone := True\<rparr>" by (simp add: step_def)
    with inv show ?thesis by (intro same) (simp_all add: cancelledWait_def)
  next
    case SelectCtxDone
    with assms(2) inv have "c' = returnFromMonitor c"
      by (auto simp: step_def split: if_splits)
    with inv show ?thesis by (intro same) (simp_all add: cancelledWait_def returnFromMonitor_def)
  next
    case SelectRetry
    with assms(2) inv show ?thesis by (simp add: step_def)
  next
    case (SleeperStart i)
    let ?rn = "Int63n env (trace (mem c)) 30"
    from SleeperStart assms(2) have c': "c' = sleeperStart env i c"
      by (simp add: step_def split: if_splits)
    have "cancelledWait c'"
      using inv by (simp add: c' sleeperStart_def Let_def cancelledWait_def not_in_set_update)
    moreover have "stores (mem c') = stores (mem c)"
      by (simp add: c' sleeperStart_def Let_def)
    moreover have "trace (mem c') = trace (mem c) @ [retryNotice (res c) ?rn, SleepSeconds ?rn] \<and>
        (\<forall>a\<in>set [retryNotice (res c) ?rn, SleepSeconds ?rn]. is_idle_action a)"
      by (simp add: c' sleeperStart_def Let_def retryNotice_def)
    ultimately show ?thesis by blast
  next
    case (SleeperWake i)
    with assms(2) have "c' = sleeperWake i c" by (simp add: step_def split: if_splits)
    with inv show ?thesis
      by (intro same) (simp_all add: cancelledWait_def sleeperWake_def not_in_set_update)
  next
    case (SleeperSend i)
    with assms(2) have "i < length (sleepers c)" "sleepers c ! i = Sending"
      by (auto simp: step_def split: if_splits)
    then have "Sending \<in> set (sleepers c)" by (metis nth_mem)
    with inv(3) show ?thesis by simp
  next
    case StartChild
    with assms(2) inv show ?thesis by (auto simp: step_def split: if_splits)
  next
    case (WaitReturn failed)
    with assms(2) have "c' = waitReturn failed c" by (simp add: step_def split: if_splits)
    with inv show ?thesis
      by (intro same) (simp_all add: cancelledWait_def waitReturn_def Let_def)
  next
    case WorkerReturn
    with assms(2) have "c' = c\<lparr>workers := workers c - 1\<rparr>" by (simp add: step_def split: if_splits)
    with inv show ?thesis by (intro same) (simp_all add: cancelledWait_def)
  next
    case (RecvProcess b)
    with assms(2) inv show ?thesis by (auto simp: step_def split: if_splits)
  next
    case (RecvSignal sg)
    with assms(2) inv show ?thesis by (auto simp: step_def split: if_splits)
  next
    case (RecvErr msg bk)
    with assms(2) inv show ?thesis by (auto simp: step_def split: if_splits)
  next
    case SelectDone
    with assms(2) inv show ?thesis by (auto simp: step_def split: if_splits)
  next
    case WgWaitReturn
    with assms(2) inv show ?thesis by (auto simp: step_def split: if_splits)
  next
    case WorkerSend
    with assms(2) inv show ?thesis by (auto simp: step_def split: if_splits)
  next
    case Drain
    with assms(2) inv show ?thesis by (auto simp: step_def split: if_splits)
  qed
qed

lemma run_cancelledWait:
  "cancelledWait c \<Longrightarrow> run env es c = Some c' \<Longrightarrow>
     cancelledWait c' \<and> stores (mem c') = stores (mem c) \<and>
     (\<exists>ext. trace (mem c') = trace (mem c) @ ext \<and> (\<forall>a\<in>set ext. is_idle_action a))"
proof (induction es arbitrary: c)
  case Nil
  then have "trace (mem c') = trace (mem c) @ [] \<and> (\<forall>a\<in>set []. is_idle_action a)" by simp
  with Nil show ?case by (metis option.inject run.simps(1))
next
  case (Cons e es)
  from Cons.prems(2) obtain c1 where s: "step env e c = Some c1" and r: "run env es c1 = Some c'"
    by (auto split: option.splits)
  from step_cancelledWait [OF Cons.prems(1) s] obtain e1 where
    a: "cancelledWait c1" "stores (mem c1) = stores (mem c)"
      "trace (mem c1) = trace (mem c) @ e1" "\<forall>a\<in>set e1. is_idle_action a" by blast
  from Cons.IH [OF a(1) r] obtain e2 where
    b: "cancelledWait c'" "stores (mem c') = stores (mem c1)"
      "trace (mem c') = trace (mem c1) @ e2" "\<forall>a\<in>set e2. is_idle_action a" by blast
  have "trace (mem c') = trace (mem c) @ (e1 @ e2) \<and> (\<forall>a\<in>set (e1 @ e2). is_idle_action a)"
    using a b by auto
  with a(2) b(1,2) show ?case by (metis)
qed

text \<open>
  Claim C5. Let \<^verbatim>\<open>Monitor\<close> wait out a retry delay: it stands at the select of the
  retry loop, \<^verbatim>\<open>retryChan\<close> is empty and no goroutine of the loop is past its sleep.
  If the context is cancelled now, then whatever happens afterwards, no token reaches
  \<^verbatim>\<open>retryChan\<close> and the retry is never taken: the stores stay as they are and nothing
  is done but log entries and sleeps that end without a send. The \<^verbatim>\<open>ctx.Done()\<close> case
  is ready from the cancellation on, and taking it returns from \<^verbatim>\<open>Monitor\<close>.
\<close>

theorem cancel_during_delay:
  assumes "pc c = RetrySelect" and "retryChan c = 0" and "Sending \<notin> set (sleepers c)"
    and "\<not> stopDeferred c"
    and "run env (Cancel # es) c = Some c'"
  shows "\<not> enabled SelectRetry c' \<and> retryChan c' = 0 \<and>
         (pc c' = RetrySelect \<or> pc c' = Returned) \<and>
         stores (mem c') = stores (mem c) \<and>
         (\<forall>a\<in>set (drop (length (trace (mem c))) (trace (mem c'))). is_idle_action a) \<and>
         (pc c' = RetrySelect \<longrightarrow>
            step env SelectCtxDone c' = Some (returnFromMonitor c') \<and>
            pc (returnFromMonitor c') = Returned \<and> mem (returnFromMonitor c') = mem c') \<and>
         step env SelectCtxDone (c\<lparr>ctxDone := True\<rparr>) = Some (returnFromMonitor (c\<lparr>ctxDone := True\<rparr>))"
proof -
  let ?c0 = "c\<lparr>ctxDone := True\<rparr>"
  have s0: "step env Cancel c = Some ?c0" by (simp add: step_def)
  with assms(5) have r: "run env es ?c0 = Some c'" by simp
  have i0: "cancelledWait ?c0" using assms(1-4) by (simp add: cancelledWait_def)
  from run_cancelledWait [OF i0 r] obtain ext where
    i: "cancelledWait c'" "stores (mem c') = stores (mem c)"
      "trace (mem c') = trace (mem c) @ ext" "\<forall>a\<in>set ext. is_idle_action a"
    by auto
  from i(1) have inv: "pc c' = RetrySelect \<or> pc c' = Returned" "retryChan c' = 0"
    "ctxDone c'" "\<not> stopDeferred c'"
    by (simp_all add: cancelledWait_def)
  have c1: "\<not> enabled SelectRetry c'" using inv(2) by simp
  have c5: "\<forall>a\<in>set (drop (length (trace (mem c))) (trace (mem c'))). is_idle_action a"
    using i(3,4) by simp
  have c6: "pc c' = RetrySelect \<longrightarrow>
            step env SelectCtxDone c' = Some (returnFromMonitor c') \<and>
            pc (returnFromMonitor c') = Returned \<and> mem (returnFromMonitor c') = mem c'"
    using inv(3,4) by (simp add: step_def returnFromMonitor_def)
  have c7: "step env SelectCtxDone ?c0 = Some (returnFromMonitor ?c0)"
    using assms(1) by (simp add: step_def)
  show ?thesis
    by (intro conjI c1 inv(2) inv(1) i(2) c5 c6 c7)
qed

lemma retryNotice_example:
  "retryNotice demoResource 7 =
     Log ErrorLevel [(''resource'', ''demo'')]
       (Text ''not all templates could be rendered, trying again after 7 seconds'')"
  by (simp add: retryNotice_def sprint_d_def decimal.simps demoResource_def)

lemma sprint_d_examples:
  "sprint_d 0 = ''0''" "sprint_d 29 = ''29''" "sprint_d (- 3) = ''-3''" "sprint_d 1205 = ''1205''"
  by (simp_all add: sprint_d_def decimal.simps)

theorem retry_after_delay_witness:
  "pc (Monitor_start demoResource demoState False) = RetrySelect \<and>
   retryChan (Monitor_start demoResource demoState False) = 1 \<and>
   \<not> ctxDone (Monitor_start demoResource demoState False) \<and>
   (\<forall>tr. 0 \<le> Int63n envDown tr 30 \<and> Int63n envDown tr 30 < 30) \<and>
   (\<exists>s1 c'. process envDown demoResource (backends demoResource) demoState =
        Some (False, Some (BackendError ''setVars failed: getValues failed: connection refused'' ''B''), s1) \<and>
      run envDown (retryRound (Monitor_start demoResource demoState False))
        (Monitor_start demoResource demoState False) = Some c' \<and>
      drop (length (trace s1)) (trace (mem c')) =
        [Log ErrorLevel [(''resource'', ''demo''), (''backend'', ''B'')]
           (ErrorValue (BackendError ''setVars failed: getValues failed: connection refused'' ''B'')),
         retryNotice demoResource 7, SleepSeconds 7] \<and>
      pc c' = RetrySelect \<and> retryChan c' = 1 \<and> enabled SelectRetry c')"
proof -
  let ?c = "Monitor_start demoResource demoState False"
  let ?err = "BackendError ''setVars failed: getValues failed: connection refused'' ''B''"
  have r: "res ?c = demoResource" "mem ?c = demoState"
    by (simp_all add: Monitor_start_def demoResource_def)
  have h1: "pc ?c = RetrySelect" and h2: "retryChan ?c = 1" and h3: "\<not> ctxDone ?c"
    by (simp_all add: Monitor_start_def)
  have h5: "\<forall>tr. 0 \<le> Int63n envDown tr 30 \<and> Int63n envDown tr 30 < 30"
    by (simp add: envDown_def envUp_def)
  have "\<exists>s1. process envDown demoResource (backends demoResource) demoState = Some (False, Some ?err, s1)"
    by (simp add: demo_defs eval_defs)
  then obtain s1 where
    p: "process envDown demoResource (backends demoResource) demoState = Some (False, Some ?err, s1)"
    by blast
  then have h4: "process envDown (res ?c) (backends (res ?c)) (mem ?c) = Some (False, Some ?err, s1)"
    by (simp only: r)
  from retry_after_delay [OF h1 h2 h3 h4 h5] obtain c' rn where
    c: "run envDown (retryRound ?c) ?c = Some c'"
      "trace (mem c') = trace s1 @ [retryErrorEntry (res ?c) ?err, retryNotice (res ?c) rn, SleepSeconds rn]"
      "pc c' = RetrySelect" "retryChan c' = 1" "enabled SelectRetry c'"
    and rn: "rn = Int63n envDown (trace s1 @ [retryErrorEntry (res ?c) ?err]) 30"
    by blast
  from rn have rn7: "rn = 7" by (simp add: envDown_def envUp_def)
  have d: "drop (length (trace s1)) (trace (mem c')) =
        [Log ErrorLevel [(''resource'', ''demo''), (''backend'', ''B'')] (ErrorValue ?err),
         retryNotice demoResource 7, SleepSeconds 7]"
    by (simp add: c(2) rn7 r retryErrorEntry_def) (simp add: demoResource_def)
  show ?thesis
    by (rule conjI [OF h1], rule conjI [OF h2], rule conjI [OF h3], rule conjI [OF h5],
        rule exI [of _ s1], rule exI [of _ c']) (intro conjI p c(1) d c(3) c(4) c(5))
qed

theorem cancel_during_delay_witness:
  "pc demoDelay = RetrySelect \<and> retryChan demoDelay = 0 \<and> Sending \<notin> set (sleepers demoDelay) \<and>
   \<not> stopDeferred demoDelay \<and>
   run envUp (Cancel # [SleeperWake 0]) demoDelay =
     Some (demoDelay\<lparr>ctxDone := True, sleepers := [Exited]\<rparr>) \<and>
   \<not> enabled SelectRetry (demoDelay\<lparr>ctxDone := True, sleepers := [Exited]\<rparr>) \<and>
   \<not> enabled (SleeperSend 0) (demoDelay\<lparr>ctxDone := True, sleepers := [Exited]\<rparr>) \<and>
   mem (demoDelay\<lparr>ctxDone := True, sleepers := [Exited]\<rparr>) = mem demoDelay \<and>
   pc (demoDelay\<lparr>ctxDone := True, sleepers := [Exited]\<rparr>) = RetrySelect \<and>
   step envUp SelectCtxDone (demoDelay\<lparr>ctxDone := True, sleepers := [Exited]\<rparr>) =
     Some (returnFromMonitor (demoDelay\<lparr>ctxDone := True, sleepers := [Exited]\<rparr>)) \<and>
   pc (returnFromMonitor (demoDelay\<lparr>ctxDone := True, sleepers := [Exited]\<rparr>)) = Returned"
proof -
  let ?c' = "demoDelay\<lparr>ctxDone := True, sleepers := [Exited]\<rparr>"
  have h1: "pc demoDelay = RetrySelect" and h2: "retryChan demoDelay = 0"
    and h3: "Sending \<notin> set (sleepers demoDelay)" and h4: "\<not> stopDeferred demoDelay"
    by (simp_all add: demoDelay_def)
  have h5: "run envUp (Cancel # [SleeperWake 0]) demoDelay = Some ?c'"
    by (simp add: step_def sleeperWake_def demoDelay_def)
  note c = cancel_during_delay [OF h1 h2 h3 h4 h5]
  have p: "pc ?c' = RetrySelect" by (simp add: demoDelay_def)
  from c p have c6: "step envUp SelectCtxDone ?c' = Some (returnFromMonitor ?c')"
    "pc (returnFromMonitor ?c') = Returned" by blast+
  from c have c1: "\<not> enabled SelectRetry ?c'" by blast
  have c2: "\<not> enabled (SleeperSend 0) ?c'" by simp
  have c3: "mem ?c' = mem demoDelay" by simp
  show ?thesis
    by (intro conjI h1 h2 h3 h4 h5 c1 c2 c3 p c6)
qed

end
